theory Spec2Isabelle
  imports Main "HOL-Library.Word" "HOL-Library.Multiset"
begin

section \<open>The block pool allocator (\<open>caching::pool_allocator\<close>)\<close>

text \<open>
  A pointer handed out by the allocator. A slot of the pool is named by the block it
  lies in and its position in that block's \<open>data\<close> array. Blocks are never unlinked
  while the allocator lives, so a block is named by the length the chain had when the
  block was created: the oldest block is block 0. The generic fallback of
  \<open>allocate(n)\<close> for \<open>n \<noteq> 1\<close> returns storage from the global heap, which is
  not part of the pool; only the requested count is recorded.
\<close>

datatype pointer = Slot nat nat | Heap_Array nat

text \<open>
  What the source does where it has no defined result: a failed \<open>assert\<close>, a read
  through a null pointer, an iterator that points to no node, and an object constructed
  in storage that lies outside the block it was taken from.
\<close>

datatype error = Assertion_Failed | Null_Dereference | Invalid_Iterator | Out_Of_Block

text \<open>
  \<open>MemoryPool<true>\<close> has the fields \<open>pool\<close> and \<open>freeList\<close>,
  \<open>MemoryPool<false>\<close> only \<open>pool\<close>. The chain of blocks (\<open>Block::next\<close>)
  is the list of the blocks' slot counts, newest block first; \<open>pool == nullptr\<close> is
  the empty list. \<open>freeList\<close> is the head of the intrusive free list
  (\<open>None\<close> is \<open>nullptr\<close>).
\<close>

datatype MemoryPool =
    MemoryPool_true (pool: "nat list") (freeList: "pointer option")
  | MemoryPool_false (pool: "nat list")

text \<open>
  The allocator object. \<open>unsigned\<close> is a 32-bit word. The field \<open>nextFree\<close> is
  the store behind \<open>DataField::nextFree\<close>: the link that \<open>deallocate\<close> writes
  into the storage of a released slot.
\<close>

record pool_allocator =
  mpool :: MemoryPool
  currBlockSize :: "32 word"
  index :: "32 word"
  nextFree :: "pointer \<Rightarrow> pointer option"

definition pool_allocator_ctor :: "bool \<Rightarrow> 32 word \<Rightarrow> pool_allocator" where
  "pool_allocator_ctor UseFreeList reserved =
     \<lparr>mpool = (if UseFreeList then MemoryPool_true [] None else MemoryPool_false []),
      currBlockSize = reserved,
      index = reserved,
      nextFree = (\<lambda>_. None)\<rparr>"

text \<open>\<open>mpool.pool = p\<close>, keeping the free-list head.\<close>

fun set_pool :: "nat list \<Rightarrow> MemoryPool \<Rightarrow> MemoryPool" where
  "set_pool p (MemoryPool_true _ fl) = MemoryPool_true p fl"
| "set_pool p (MemoryPool_false _) = MemoryPool_false p"

text \<open>
  The part of \<open>allocate\<close> after the free-list check: a new block when the cursor has
  reached \<open>currBlockSize\<close>, the next slot of the newest block otherwise. Reading
  \<open>mpool.pool->data\<close> with \<open>pool == nullptr\<close> is undefined in the source and an
  error here.
\<close>

definition allocate_from_block ::
  "32 word \<Rightarrow> pool_allocator \<Rightarrow> error + (pointer \<times> pool_allocator)" where
  "allocate_from_block BlockSize a =
     (if index a = currBlockSize a then
        (if pool (mpool a) \<noteq> [] then
           Inr (Slot (length (pool (mpool a))) 0,
                a\<lparr>mpool := set_pool (unat BlockSize # pool (mpool a)) (mpool a),
                  currBlockSize := BlockSize,
                  index := 1\<rparr>)
         else
           Inr (Slot (length (pool (mpool a))) 0,
                a\<lparr>mpool := set_pool (unat (currBlockSize a) # pool (mpool a)) (mpool a),
                  index := 1\<rparr>))
      else
        (case pool (mpool a) of
           [] \<Rightarrow> Inl Null_Dereference
         | _ # older \<Rightarrow> Inr (Slot (length older) (unat (index a)), a\<lparr>index := index a + 1\<rparr>)))"

definition allocate ::
  "32 word \<Rightarrow> nat \<Rightarrow> pool_allocator \<Rightarrow> error + (pointer \<times> pool_allocator)" where
  "allocate BlockSize n a =
     (if n \<noteq> 1 then Inr (Heap_Array n, a)
      else
        (case mpool a of
           MemoryPool_true p (Some fld) \<Rightarrow>
             Inr (fld, a\<lparr>mpool := MemoryPool_true p (nextFree a fld)\<rparr>)
         | _ \<Rightarrow> allocate_from_block BlockSize a))"

definition deallocate :: "pointer \<Rightarrow> nat \<Rightarrow> pool_allocator \<Rightarrow> pool_allocator" where
  "deallocate ptr n a =
     (if n \<noteq> 1 then a
      else
        (case mpool a of
           MemoryPool_true p fl \<Rightarrow>
             a\<lparr>nextFree := (nextFree a)(ptr := fl), mpool := MemoryPool_true p (Some ptr)\<rparr>
         | MemoryPool_false p \<Rightarrow> a))"

text \<open>
  The destructor walks the chain and releases every block; it returns the released
  blocks (newest first) and leaves \<open>mpool = nullptr\<close>.
\<close>

fun release_blocks :: "nat list \<Rightarrow> nat list" where
  "release_blocks [] = []"
| "release_blocks (p # nxt) = p # release_blocks nxt"

fun MemoryPool_nullptr :: "MemoryPool \<Rightarrow> MemoryPool" where
  "MemoryPool_nullptr (MemoryPool_true _ _) = MemoryPool_true [] None"
| "MemoryPool_nullptr (MemoryPool_false _) = MemoryPool_false []"

definition pool_allocator_dtor :: "pool_allocator \<Rightarrow> nat list \<times> pool_allocator" where
  "pool_allocator_dtor a =
     (release_blocks (pool (mpool a)), a\<lparr>mpool := MemoryPool_nullptr (mpool a)\<rparr>)"

text \<open>The free-list head of an allocator; an allocator without free list has none.\<close>

fun freeList_head :: "MemoryPool \<Rightarrow> pointer option" where
  "freeList_head (MemoryPool_true _ fl) = fl"
| "freeList_head (MemoryPool_false _) = None"

text \<open>
  A slot lies inside its block when the block exists in the chain and the position is
  below the block's slot count. Block \<open>b\<close> is the element \<open>length chain - 1 - b\<close>
  of the chain.
\<close>

fun in_block :: "nat list \<Rightarrow> pointer \<Rightarrow> bool" where
  "in_block chain (Slot b i) = (b < length chain \<and> i < rev chain ! b)"
| "in_block chain (Heap_Array n) = False"

subsection \<open>Sequences of allocator calls\<close>

text \<open>
  A client's calls \<open>allocate(1)\<close> and \<open>deallocate(ptr, 1)\<close>, run in order from a
  given allocator state. The pointers returned so far are collected, newest first. Calls
  with \<open>n \<noteq> 1\<close> leave the allocator state unchanged and are left out.
\<close>

datatype pool_call = Allocate | Deallocate pointer

fun pool_calls ::
  "32 word \<Rightarrow> pool_call list \<Rightarrow> pointer list \<times> pool_allocator \<Rightarrow> error + (pointer list \<times> pool_allocator)" where
  "pool_calls B [] s = Inr s"
| "pool_calls B (Allocate # cs) (ps, a) =
     (case allocate B 1 a of
        Inl e \<Rightarrow> Inl e
      | Inr (p, a') \<Rightarrow> pool_calls B cs (p # ps, a'))"
| "pool_calls B (Deallocate p # cs) (ps, a) = pool_calls B cs (ps, deallocate p 1 a)"

text \<open>A client is disciplined when it only gives back pointers it has been handed.\<close>

fun disciplined :: "32 word \<Rightarrow> pool_call list \<Rightarrow> pointer list \<times> pool_allocator \<Rightarrow> bool" where
  "disciplined B [] s = True"
| "disciplined B (Allocate # cs) (ps, a) =
     (case allocate B 1 a of
        Inl e \<Rightarrow> True
      | Inr (p, a') \<Rightarrow> disciplined B cs (p # ps, a'))"
| "disciplined B (Deallocate p # cs) (ps, a) = (p \<in> set ps \<and> disciplined B cs (ps, deallocate p 1 a))"

subsection \<open>Invariants of the allocator\<close>

text \<open>
  Without a block the cursor sits at \<open>currBlockSize\<close>, so that the next request creates
  one; and the cursor never passes \<open>currBlockSize\<close>, except for an allocator constructed
  with \<open>reserved = 0\<close>.
\<close>

definition pool_wf :: "pool_allocator \<Rightarrow> bool" where
  "pool_wf a \<longleftrightarrow>
     (pool (mpool a) = [] \<longrightarrow> index a = currBlockSize a) \<and>
     (index a \<le> currBlockSize a \<or> currBlockSize a = 0)"

text \<open>
  The slots that the block path of \<open>allocate\<close> may have returned so far: every slot
  of an older block, and the slots of the newest block below the cursor.
\<close>

fun handed_out :: "pool_allocator \<Rightarrow> pointer \<Rightarrow> bool" where
  "handed_out a (Slot b i) =
     (b < length (pool (mpool a)) \<and>
      (Suc b = length (pool (mpool a)) \<and> index a \<noteq> currBlockSize a \<longrightarrow> i < unat (index a)))"
| "handed_out a (Heap_Array n) = False"

text \<open>The allocator was instantiated with \<open>UseFreeList = false\<close>.\<close>

definition no_freeList :: "pool_allocator \<Rightarrow> bool" where
  "no_freeList a \<longleftrightarrow> (case mpool a of MemoryPool_false _ \<Rightarrow> True | MemoryPool_true _ _ \<Rightarrow> False)"

text \<open>
  For \<open>reserved \<ge> 1\<close>: the cursor stays within \<open>currBlockSize\<close>, which is the slot
  count of the newest block.
\<close>

definition pool_bounded :: "pool_allocator \<Rightarrow> bool" where
  "pool_bounded a \<longleftrightarrow>
     currBlockSize a \<noteq> 0 \<and> index a \<le> currBlockSize a \<and>
     (case pool (mpool a) of [] \<Rightarrow> index a = currBlockSize a | c # _ \<Rightarrow> c = unat (currBlockSize a))"


text \<open>
  Every pointer handed out lies inside its block, and the free list only links pointers
  that were handed out.
\<close>

definition pool_inv :: "pointer list \<times> pool_allocator \<Rightarrow> bool" where
  "pool_inv s \<longleftrightarrow>
     pool_bounded (snd s) \<and>
     (\<forall>p \<in> set (fst s). in_block (pool (mpool (snd s))) p) \<and>
     (\<forall>p. freeList_head (mpool (snd s)) = Some p \<longrightarrow> p \<in> set (fst s)) \<and>
     (\<forall>p q. nextFree (snd s) p = Some q \<longrightarrow> q \<in> set (fst s))"


section \<open>The LRU cache (\<open>caching::lru_cache\<close>)\<close>

text \<open>
  The two containers of the cache keep their elements in nodes that they obtain from
  their pool allocator, one node per element; a node is named by its address.

  A node of \<open>cache\<close> (a \<open>std::list\<close> of \<open>ListElemTy\<close>) is its address, which is
  also the list iterator that names it, and the pair it stores: \<open>first\<close>, a pointer to
  the key (the address of the node of \<open>dict\<close> that holds the key; \<open>None\<close> is
  \<open>nullptr\<close>), and \<open>second\<close>, the value. The list is kept in its order, front first.

  A node of \<open>dict\<close> (a \<open>std::unordered_map\<close>) is its address, the key and the mapped
  list iterator. The map is never traversed, so the order of its nodes is immaterial.
\<close>

type_synonym 'v ListNode = "pointer \<times> pointer option \<times> 'v"

type_synonym 'k MapNode = "pointer \<times> 'k \<times> pointer"

text \<open>
  \<open>size_t\<close> values are natural numbers; \<open>limit\<close> is only ever compared. Each container
  owns its allocator, an instance of \<open>pool_allocator\<close> with \<open>UseFreeList = false\<close>:
  the container builds the allocator for its nodes from the one it is given, and the
  converting constructor passes \<open>minCapacity()\<close> on, so the node allocator starts as
  \<open>pool_allocator(reserved)\<close> with the same \<open>reserved\<close>.
\<close>

record ('k, 'v) lru_cache =
  dict_alloc :: pool_allocator
  dict :: "'k MapNode list"
  cache_alloc :: pool_allocator
  cache :: "'v ListNode list"
  limit :: nat

subsection \<open>The container operations the cache uses\<close>

text \<open>\<open>dict.find(key)\<close>: the node with an equal key, \<open>None\<close> for \<open>dict.end()\<close>.\<close>

definition dict_find :: "'k MapNode list \<Rightarrow> 'k \<Rightarrow> 'k MapNode option" where
  "dict_find d key = find (\<lambda>n. fst (snd n) = key) d"

text \<open>
  \<open>*first\<close> for a key pointer. Dereferencing \<open>nullptr\<close> or the address of no node
  yields \<open>None\<close>.
\<close>

definition key_at :: "'k MapNode list \<Rightarrow> pointer option \<Rightarrow> 'k option" where
  "key_at d first =
     (case first of
        None \<Rightarrow> None
      | Some a \<Rightarrow> map_option (\<lambda>n. fst (snd n)) (find (\<lambda>n. fst n = a) d))"

text \<open>The node a list iterator points to.\<close>

definition list_node :: "'v ListNode list \<Rightarrow> pointer \<Rightarrow> 'v ListNode option" where
  "list_node l it = find (\<lambda>n. fst n = it) l"

text \<open>The value behind a pointer to a stored value (\<open>&it->second\<close>).\<close>

definition value_at :: "'v ListNode list \<Rightarrow> pointer \<Rightarrow> 'v option" where
  "value_at l p = map_option (\<lambda>n. snd (snd n)) (list_node l p)"

text \<open>
  \<open>l.splice(l.end(), l, it)\<close>: the node at \<open>it\<close> is unlinked and linked in again at
  the back. An iterator that points to no node of the list is undefined behaviour in
  the source and \<open>None\<close> here.
\<close>

definition splice_end :: "'v ListNode list \<Rightarrow> pointer \<Rightarrow> 'v ListNode list option" where
  "splice_end l it =
     (case list_node l it of
        None \<Rightarrow> None
      | Some n \<Rightarrow> Some (filter (\<lambda>m. fst m \<noteq> it) l @ [n]))"

text \<open>\<open>it->second = value\<close> and \<open>it->first = p\<close>.\<close>

definition assign_second :: "pointer \<Rightarrow> 'v \<Rightarrow> 'v ListNode list \<Rightarrow> 'v ListNode list" where
  "assign_second it v l = map (\<lambda>n. if fst n = it then (fst n, fst (snd n), v) else n) l"

definition assign_first :: "pointer \<Rightarrow> pointer option \<Rightarrow> 'v ListNode list \<Rightarrow> 'v ListNode list" where
  "assign_first it p l = map (\<lambda>n. if fst n = it then (fst n, p, snd (snd n)) else n) l"

text \<open>
  \<open>l.insert(l.end(), {first, second})\<close>: one node from the list's allocator, linked in
  at the back; returns the iterator to it. The list constructs the node in the storage
  that \<open>allocate(1)\<close> returns; when that slot lies outside its block the source writes
  past the block, which is an error here.
\<close>

definition list_insert_end ::
  "32 word \<Rightarrow> pointer option \<Rightarrow> 'v \<Rightarrow> pool_allocator \<times> 'v ListNode list \<Rightarrow>
   error + (pointer \<times> pool_allocator \<times> 'v ListNode list)" where
  "list_insert_end B first second s =
     (case allocate B 1 (fst s) of
        Inl e \<Rightarrow> Inl e
      | Inr (pos, al) \<Rightarrow>
          if in_block (pool (mpool al)) pos then Inr (pos, al, snd s @ [(pos, first, second)])
          else Inl Out_Of_Block)"

text \<open>
  \<open>d.try_emplace(key, pos)\<close>: nothing happens when the key is present; otherwise one
  node from the map's allocator holds the new element, constructed in the storage that
  \<open>allocate(1)\<close> returns (an error when that slot lies outside its block). Returns the
  node and whether it was inserted.
\<close>

definition try_emplace ::
  "32 word \<Rightarrow> 'k \<Rightarrow> pointer \<Rightarrow> pool_allocator \<times> 'k MapNode list \<Rightarrow>
   error + ((pointer \<times> bool) \<times> pool_allocator \<times> 'k MapNode list)" where
  "try_emplace B key pos s =
     (case dict_find (snd s) key of
        Some n \<Rightarrow> Inr ((fst n, False), s)
      | None \<Rightarrow>
          (case allocate B 1 (fst s) of
             Inl e \<Rightarrow> Inl e
           | Inr (a, al) \<Rightarrow>
               if in_block (pool (mpool al)) a then Inr ((a, True), al, (a, key, pos) # snd s)
               else Inl Out_Of_Block))"

text \<open>
  \<open>d.extract(key)\<close>: the node with that key is unlinked and handed to the caller; an
  empty node handle (\<open>None\<close>) when there is none.
\<close>

definition dict_extract :: "'k MapNode list \<Rightarrow> 'k \<Rightarrow> 'k MapNode option \<times> 'k MapNode list" where
  "dict_extract d key = (dict_find d key, filter (\<lambda>n. fst (snd n) \<noteq> key) d)"

text \<open>
  \<open>d.insert(std::move(nod))\<close>: the node is linked in unless its key is present;
  returns \<open>inserted\<close>.
\<close>

definition dict_insert_node :: "'k MapNode \<Rightarrow> 'k MapNode list \<Rightarrow> bool \<times> 'k MapNode list" where
  "dict_insert_node nod d =
     (case dict_find d (fst (snd nod)) of
        Some _ \<Rightarrow> (False, d)
      | None \<Rightarrow> (True, nod # d))"

subsection \<open>Constructors\<close>

text \<open>
  The members are initialised first, then the assertion is checked. The cast to
  \<open>unsigned\<close> is applied to a value that is at most \<open>AllocBlockSize\<close>.
\<close>

definition lru_cache_ctor :: "32 word \<Rightarrow> nat \<Rightarrow> error + ('k, 'v) lru_cache" where
  "lru_cache_ctor AllocBlockSize lim =
     (let c = \<lparr>dict_alloc = pool_allocator_ctor False (word_of_nat (min lim (unat AllocBlockSize))),
               dict = [],
               cache_alloc = pool_allocator_ctor False (word_of_nat (min lim (unat AllocBlockSize))),
               cache = [],
               limit = lim\<rparr>
      in if lim = 0 then Inl Assertion_Failed else Inr c)"

text \<open>
  The overload with \<open>initCap\<close>. \<open>dict.reserve(initCap)\<close> sizes the bucket array, which
  is not drawn from the pool.
\<close>

definition lru_cache_ctor_initCap :: "nat \<Rightarrow> 32 word \<Rightarrow> error + ('k, 'v) lru_cache" where
  "lru_cache_ctor_initCap lim initCap =
     (let c = \<lparr>dict_alloc = pool_allocator_ctor False initCap,
               dict = [],
               cache_alloc = pool_allocator_ctor False initCap,
               cache = [],
               limit = lim\<rparr>
      in if lim = 0 then Inl Assertion_Failed else Inr c)"

subsection \<open>\<open>insert\<close>\<close>

text \<open>
  The result is the pointer to the cached value, given as the list node that stores it,
  and the flag \<open>inserted\<close>. Each \<open>assert\<close> of the source is a branch that fails.
\<close>

definition insert_lru ::
  "32 word \<Rightarrow> 'k \<Rightarrow> 'v \<Rightarrow> bool \<Rightarrow> ('k, 'v) lru_cache \<Rightarrow>
   error + ((pointer \<times> bool) \<times> ('k, 'v) lru_cache)" where
  "insert_lru AllocBlockSize key value update c =
     (case dict_find (dict c) key of
        Some it \<Rightarrow>
          (let lstIt = snd (snd it) in
           case splice_end (cache c) lstIt of
             None \<Rightarrow> Inl Invalid_Iterator
           | Some spliced \<Rightarrow>
               Inr ((lstIt, False),
                    c\<lparr>cache := (if update then assign_second lstIt value spliced else spliced)\<rparr>))
      | None \<Rightarrow>
          if length (dict c) \<noteq> limit c then
            (case list_insert_end AllocBlockSize None value (cache_alloc c, cache c) of
               Inl e \<Rightarrow> Inl e
             | Inr (pos, lalloc, l) \<Rightarrow>
                 (case try_emplace AllocBlockSize key pos (dict_alloc c, dict c) of
                    Inl e \<Rightarrow> Inl e
                  | Inr ((mapIt, unused), dalloc, d) \<Rightarrow>
                      Inr ((pos, True),
                           c\<lparr>cache_alloc := lalloc, dict_alloc := dalloc, dict := d,
                             cache := assign_first pos (Some mapIt) l\<rparr>)))
          else
            (case cache c of
               [] \<Rightarrow> Inl Assertion_Failed
             | front # rest \<Rightarrow>
                 (case key_at (dict c) (fst (snd front)) of
                    None \<Rightarrow> Inl Null_Dereference
                  | Some front_key \<Rightarrow>
                      (case dict_extract (dict c) front_key of
                         (None, d) \<Rightarrow> Inl Assertion_Failed
                       | (Some nod, d) \<Rightarrow>
                           (let nod' = (fst nod, key, fst front);
                                front' = (fst front, Some (fst nod'), value)
                            in case dict_insert_node nod' d of
                                 (False, d') \<Rightarrow> Inl Assertion_Failed
                               | (True, d') \<Rightarrow>
                                   (case splice_end (front' # rest) (fst front) of
                                      None \<Rightarrow> Inl Invalid_Iterator
                                    | Some l \<Rightarrow>
                                        Inr ((fst front, True), c\<lparr>dict := d', cache := l\<rparr>)))))))"

definition getOrInsert ::
  "32 word \<Rightarrow> 'k \<Rightarrow> 'v \<Rightarrow> ('k, 'v) lru_cache \<Rightarrow> error + (pointer \<times> ('k, 'v) lru_cache)" where
  "getOrInsert AllocBlockSize key value c =
     (case insert_lru AllocBlockSize key value False c of
        Inl e \<Rightarrow> Inl e
      | Inr ((ret, unused), c') \<Rightarrow> Inr (ret, c'))"

subsection \<open>\<open>get\<close>, \<open>peek\<close> and \<open>forEach\<close>\<close>

text \<open>
  The const and the non-const overloads have the same body. They return an optional
  reference to the stored value, given as the list node that stores it. The member
  \<open>cache\<close> is \<open>mutable\<close>, so every operation returns the cache it leaves behind.
\<close>

definition get :: "'k \<Rightarrow> ('k, 'v) lru_cache \<Rightarrow> error + (pointer option \<times> ('k, 'v) lru_cache)" where
  "get key c =
     (case dict_find (dict c) key of
        Some it \<Rightarrow>
          (case splice_end (cache c) (snd (snd it)) of
             None \<Rightarrow> Inl Invalid_Iterator
           | Some spliced \<Rightarrow> Inr (Some (snd (snd it)), c\<lparr>cache := spliced\<rparr>))
      | None \<Rightarrow> Inr (None, c))"

definition peek :: "'k \<Rightarrow> ('k, 'v) lru_cache \<Rightarrow> error + (pointer option \<times> ('k, 'v) lru_cache)" where
  "peek key c =
     (case dict_find (dict c) key of
        Some it \<Rightarrow>
          (case list_node (cache c) (snd (snd it)) of
             None \<Rightarrow> Inl Invalid_Iterator
           | Some n \<Rightarrow> Inr (Some (snd (snd it)), c))
      | None \<Rightarrow> Inr (None, c))"

text \<open>
  \<open>forEach\<close> walks the recency list from the front and calls \<open>fn(*it.first, it.second)\<close>
  for each node. The key is passed as a reference to a constant; the value is passed as
  an lvalue of the (mutable) list element, in both overloads, so the callback may assign
  to it. A callback is therefore a function of the key, the value and its own state
  \<open>'s\<close> that returns the value it leaves in the node and its new state. What a callback
  does to the cache by other means is undefined in the source and outside this model.
\<close>

fun forEach_loop ::
  "'k MapNode list \<Rightarrow> ('k \<Rightarrow> 'v \<Rightarrow> 's \<Rightarrow> 'v \<times> 's) \<Rightarrow> 'v ListNode list \<Rightarrow> 's \<Rightarrow>
   error + ('v ListNode list \<times> 's)" where
  "forEach_loop d fn [] s = Inr ([], s)"
| "forEach_loop d fn (it # rest) s =
     (case key_at d (fst (snd it)) of
        None \<Rightarrow> Inl Null_Dereference
      | Some k \<Rightarrow>
          (case forEach_loop d fn rest (snd (fn k (snd (snd it)) s)) of
             Inl e \<Rightarrow> Inl e
           | Inr (rest', s') \<Rightarrow>
               Inr ((fst it, fst (snd it), fst (fn k (snd (snd it)) s)) # rest', s')))"

definition forEach ::
  "('k \<Rightarrow> 'v \<Rightarrow> 's \<Rightarrow> 'v \<times> 's) \<Rightarrow> 's \<Rightarrow> ('k, 'v) lru_cache \<Rightarrow>
   error + ('s \<times> ('k, 'v) lru_cache)" where
  "forEach fn s c =
     (case forEach_loop (dict c) fn (cache c) s of
        Inl e \<Rightarrow> Inl e
      | Inr (l, s') \<Rightarrow> Inr (s', c\<lparr>cache := l\<rparr>))"

text \<open>Two callbacks: one that only looks and records what it sees, one that assigns.\<close>

definition record_entry :: "'k \<Rightarrow> 'v \<Rightarrow> ('k \<times> 'v) list \<Rightarrow> 'v \<times> ('k \<times> 'v) list" where
  "record_entry k v s = (v, s @ [(k, v)])"

definition overwrite :: "'v \<Rightarrow> 'k \<Rightarrow> 'v \<Rightarrow> 's \<Rightarrow> 'v \<times> 's" where
  "overwrite w k v s = (w, s)"

subsection \<open>Sequences of calls\<close>

datatype ('k, 'v, 's) cache_call =
    Insert 'k 'v bool
  | GetOrInsert 'k 'v
  | Get 'k
  | Peek 'k
  | ForEach "'k \<Rightarrow> 'v \<Rightarrow> 's \<Rightarrow> 'v \<times> 's" 's

fun run_call ::
  "32 word \<Rightarrow> ('k, 'v, 's) cache_call \<Rightarrow> ('k, 'v) lru_cache \<Rightarrow> error + ('k, 'v) lru_cache" where
  "run_call B (Insert k v update) c = map_sum id snd (insert_lru B k v update c)"
| "run_call B (GetOrInsert k v) c = map_sum id snd (getOrInsert B k v c)"
| "run_call B (Get k) c = map_sum id snd (get k c)"
| "run_call B (Peek k) c = map_sum id snd (peek k c)"
| "run_call B (ForEach fn s) c = map_sum id snd (forEach fn s c)"

fun run_calls ::
  "32 word \<Rightarrow> ('k, 'v, 's) cache_call list \<Rightarrow> ('k, 'v) lru_cache \<Rightarrow> error + ('k, 'v) lru_cache" where
  "run_calls B [] c = Inr c"
| "run_calls B (x # xs) c =
     (case run_call B x c of
        Inl e \<Rightarrow> Inl e
      | Inr c' \<Rightarrow> run_calls B xs c')"

text \<open>A sequence of \<open>insert\<close> calls, one for each (key, value, update) of a list.\<close>

definition insert_calls :: "('k \<times> 'v \<times> bool) list \<Rightarrow> ('k, 'v, 's) cache_call list" where
  "insert_calls kvs = map (\<lambda>t. Insert (fst t) (fst (snd t)) (snd (snd t))) kvs"

text \<open>The keys that a sequence of calls inserts.\<close>

fun inserted_keys :: "('k, 'v, 's) cache_call list \<Rightarrow> 'k set" where
  "inserted_keys [] = {}"
| "inserted_keys (Insert k v update # xs) = insert k (inserted_keys xs)"
| "inserted_keys (GetOrInsert k v # xs) = insert k (inserted_keys xs)"
| "inserted_keys (x # xs) = inserted_keys xs"

subsection \<open>The entries of a cache\<close>

text \<open>
  The (key, value) pairs of the cache in the order of the recency list, least recently
  used first: what \<open>forEach\<close> hands to its callback. A node whose key pointer points to
  no key has no entry.
\<close>

definition entries :: "('k, 'v) lru_cache \<Rightarrow> ('k \<times> 'v) list" where
  "entries c =
     List.map_filter
       (\<lambda>n. map_option (\<lambda>k. (k, snd (snd n))) (key_at (dict c) (fst (snd n)))) (cache c)"

text \<open>A key is present when \<open>dict\<close> has it.\<close>

definition present :: "('k, 'v) lru_cache \<Rightarrow> 'k \<Rightarrow> bool" where
  "present c k \<longleftrightarrow> dict_find (dict c) k \<noteq> None"

subsection \<open>The behaviour the specification describes\<close>

text \<open>
  The operations as the specification words them, on the list of entries in recency
  order (front is least recently used). They are compared with the code below. For
  \<open>forEach\<close> the specification gives the order of the visits; the value of an entry
  after the visit is what the callback leaves in it.
\<close>

definition spec_insert :: "nat \<Rightarrow> 'k \<Rightarrow> 'v \<Rightarrow> bool \<Rightarrow> ('k \<times> 'v) list \<Rightarrow> ('k \<times> 'v) list" where
  "spec_insert lim k v update es =
     (case map_of es k of
        Some old \<Rightarrow> filter (\<lambda>e. fst e \<noteq> k) es @ [(k, if update then v else old)]
      | None \<Rightarrow> if length es < lim then es @ [(k, v)] else tl es @ [(k, v)])"

definition spec_get :: "'k \<Rightarrow> ('k \<times> 'v) list \<Rightarrow> ('k \<times> 'v) list" where
  "spec_get k es =
     (case map_of es k of
        Some old \<Rightarrow> filter (\<lambda>e. fst e \<noteq> k) es @ [(k, old)]
      | None \<Rightarrow> es)"

fun spec_forEach :: "('k \<Rightarrow> 'v \<Rightarrow> 's \<Rightarrow> 'v \<times> 's) \<Rightarrow> ('k \<times> 'v) list \<Rightarrow> 's \<Rightarrow> ('k \<times> 'v) list \<times> 's" where
  "spec_forEach fn [] s = ([], s)"
| "spec_forEach fn (e # es) s =
     ((fst e, fst (fn (fst e) (snd e) s)) # fst (spec_forEach fn es (snd (fn (fst e) (snd e) s))),
      snd (spec_forEach fn es (snd (fn (fst e) (snd e) s))))"

fun spec_call :: "nat \<Rightarrow> ('k, 'v, 's) cache_call \<Rightarrow> ('k \<times> 'v) list \<Rightarrow> ('k \<times> 'v) list" where
  "spec_call lim (Insert k v update) es = spec_insert lim k v update es"
| "spec_call lim (GetOrInsert k v) es = spec_insert lim k v False es"
| "spec_call lim (Get k) es = spec_get k es"
| "spec_call lim (Peek k) es = es"
| "spec_call lim (ForEach fn s) es = fst (spec_forEach fn es s)"

fun spec_calls :: "nat \<Rightarrow> ('k, 'v, 's) cache_call list \<Rightarrow> ('k \<times> 'v) list \<Rightarrow> ('k \<times> 'v) list" where
  "spec_calls lim [] es = es"
| "spec_calls lim (x # xs) es = spec_calls lim xs (spec_call lim x es)"

subsection \<open>The invariant of the cache\<close>

text \<open>
  A link names the two nodes that make up one entry of the cache: the node of the
  recency list, the node of \<open>dict\<close>, the key and the value.
\<close>

datatype ('k, 'v) link =
  Link (link_it: pointer) (link_node: pointer) (link_key: 'k) (link_value: 'v)

definition ListNode_of :: "('k, 'v) link \<Rightarrow> 'v ListNode" where
  "ListNode_of q = (link_it q, Some (link_node q), link_value q)"

definition MapNode_of :: "('k, 'v) link \<Rightarrow> 'k MapNode" where
  "MapNode_of q = (link_node q, link_key q, link_it q)"

definition entry_of :: "('k, 'v) link \<Rightarrow> 'k \<times> 'v" where
  "entry_of q = (link_key q, link_value q)"

text \<open>
  The cache is linked up as the list \<open>qs\<close> says: the recency list has exactly the
  list nodes of \<open>qs\<close> in this order, each pointing to the key in its map node;
  \<open>dict\<close> has exactly the map nodes of \<open>qs\<close>, each mapping its key to its list node;
  node addresses and keys are pairwise different; there are at most \<open>limit\<close> entries
  and \<open>limit\<close> is positive; neither allocator has a free list, and every node was
  handed out by the allocator of its container.
\<close>

definition lru_inv :: "('k, 'v) lru_cache \<Rightarrow> ('k, 'v) link list \<Rightarrow> bool" where
  "lru_inv c qs \<longleftrightarrow>
     cache c = map ListNode_of qs \<and>
     mset (dict c) = mset (map MapNode_of qs) \<and>
     distinct (map link_it qs) \<and>
     distinct (map link_node qs) \<and>
     distinct (map link_key qs) \<and>
     length qs \<le> limit c \<and> 0 < limit c \<and>
     pool_wf (cache_alloc c) \<and> no_freeList (cache_alloc c) \<and>
     pool_wf (dict_alloc c) \<and> no_freeList (dict_alloc c) \<and>
     (\<forall>q \<in> set qs. handed_out (cache_alloc c) (link_it q) \<and> handed_out (dict_alloc c) (link_node q))"

text \<open>
  The cursor of both allocators stays within \<open>currBlockSize\<close>, the slot count of the
  newest block: the allocators were constructed with \<open>reserved \<ge> 1\<close>.
\<close>

definition lru_bounded :: "('k, 'v) lru_cache \<Rightarrow> bool" where
  "lru_bounded c \<longleftrightarrow> pool_bounded (cache_alloc c) \<and> pool_bounded (dict_alloc c)"

text \<open>A cache as one of the two constructors returns it.\<close>

definition constructed :: "32 word \<Rightarrow> nat \<Rightarrow> 32 word \<Rightarrow> ('k, 'v) lru_cache \<Rightarrow> bool" where
  "constructed AllocBlockSize lim initCap c \<longleftrightarrow>
     lru_cache_ctor AllocBlockSize lim = Inr c \<or> lru_cache_ctor_initCap lim initCap = Inr c"

text \<open>
  A cache as a constructor returns it when the allocators are given a positive initial
  capacity: always by \<open>lru_cache(limit)\<close>, and by \<open>lru_cache(limit, initCap)\<close> for
  \<open>initCap \<ge> 1\<close>.
\<close>

definition constructed_nonzero :: "32 word \<Rightarrow> nat \<Rightarrow> 32 word \<Rightarrow> ('k, 'v) lru_cache \<Rightarrow> bool" where
  "constructed_nonzero AllocBlockSize lim initCap c \<longleftrightarrow>
     lru_cache_ctor AllocBlockSize lim = Inr c \<or>
     (initCap \<noteq> 0 \<and> lru_cache_ctor_initCap lim initCap = Inr c)"

text \<open>The links after \<open>forEach\<close> has handed each entry to the callback, and the callback's state.\<close>

fun forEach_links ::
  "('k \<Rightarrow> 'v \<Rightarrow> 's \<Rightarrow> 'v \<times> 's) \<Rightarrow> ('k, 'v) link list \<Rightarrow> 's \<Rightarrow> ('k, 'v) link list \<times> 's" where
  "forEach_links fn [] s = ([], s)"
| "forEach_links fn (q # qs) s =
     (Link (link_it q) (link_node q) (link_key q) (fst (fn (link_key q) (link_value q) s)) #
        fst (forEach_links fn qs (snd (fn (link_key q) (link_value q) s))),
      snd (forEach_links fn qs (snd (fn (link_key q) (link_value q) s))))"

text \<open>The links after the entry \<open>q\<close> has moved to the back with the value \<open>v\<close>.\<close>

definition touch :: "('k, 'v) link \<Rightarrow> 'v \<Rightarrow> ('k, 'v) link list \<Rightarrow> ('k, 'v) link list" where
  "touch q v qs =
     filter (\<lambda>r. link_it r \<noteq> link_it q) qs @ [Link (link_it q) (link_node q) (link_key q) v]"

subsection \<open>The scenario of the specification\<close>

text \<open>
  A cache of capacity 3 after \<open>insert(3, 4.5)\<close>, \<open>insert(4, 4.3)\<close>, \<open>insert(6, 4.7)\<close>,
  \<open>get(4)\<close>, \<open>insert(7, 33.3)\<close>, \<open>get(3)\<close>, \<open>get(6)\<close>. The values are written in
  tenths.
\<close>

definition scenario_start :: "(nat, int) lru_cache" where
  "scenario_start = projr (lru_cache_ctor_initCap 3 3)"

definition scenario_calls :: "(nat, int, unit) cache_call list" where
  "scenario_calls =
     [Insert 3 45 False, Insert 4 43 False, Insert 6 47 False, Get 4, Insert 7 333 False, Get 3, Get 6]"

definition scenario_cache :: "(nat, int) lru_cache" where
  "scenario_cache = projr (run_calls 1024 scenario_calls scenario_start)"

section \<open>Lemmas about the allocator\<close>

lemma pool_set_pool [simp]: "pool (set_pool p m) = p"
  by (cases m) simp_all

lemma freeList_head_set_pool [simp]: "freeList_head (set_pool p m) = freeList_head m"
  by (cases m) simp_all

lemma word_succ_le_32: "(i::32 word) \<le> c \<Longrightarrow> i \<noteq> c \<Longrightarrow> i + 1 \<le> c"
  by (simp add: inc_le)

lemma word_le_one: "(B::32 word) \<noteq> 0 \<Longrightarrow> 1 \<le> B"
  by (simp add: word_le_sub1)

lemma wrap32: "(i::32 word) + 1 = 0 \<Longrightarrow> i \<le> c \<Longrightarrow> i = c"
  by (metis add.commute add.right_inverse add_left_cancel word_order.extremum_uniqueI)

lemma unat_succ_32: "(i::32 word) + 1 \<noteq> 0 \<Longrightarrow> unat (i + 1) = Suc (unat i)"
  using unatSuc [of i] by (simp add: add.commute)

lemma allocate_from_block_fresh:
  assumes "pool_wf a" and "B \<noteq> 0"
  shows "\<exists>p a'. allocate_from_block B a = Inr (p, a') \<and> \<not> handed_out a p \<and> handed_out a' p \<and>
           (\<forall>q. handed_out a q \<longrightarrow> handed_out a' q) \<and> pool_wf a' \<and>
           freeList_head (mpool a') = freeList_head (mpool a) \<and> nextFree a' = nextFree a \<and>
           (no_freeList a \<longrightarrow> no_freeList a')"
proof (cases "index a = currBlockSize a")
  case True
  have mono: "handed_out a q \<Longrightarrow> handed_out a' q" if "pool (mpool a') = c # pool (mpool a)" for q c a'
    using that by (cases q) auto
  have nf: "no_freeList a \<Longrightarrow> no_freeList a'" if "mpool a' = set_pool p (mpool a)" for p a'
    using that by (cases "mpool a") (simp_all add: no_freeList_def)
  let ?p = "Slot (length (pool (mpool a))) 0"
  show ?thesis
  proof (cases "pool (mpool a) = []")
    case True
    let ?a' = "a\<lparr>mpool := set_pool (unat (currBlockSize a) # pool (mpool a)) (mpool a), index := 1\<rparr>"
    have eq: "allocate_from_block B a = Inr (?p, ?a')"
      using True \<open>index a = currBlockSize a\<close> by (simp add: allocate_from_block_def)
    have "pool_wf ?a'"
      using assms(1) by (auto simp: pool_wf_def word_le_one)
    moreover have "\<not> handed_out a ?p" "handed_out ?a' ?p"
      by simp_all
    moreover have "handed_out a q \<longrightarrow> handed_out ?a' q" for q
      using mono [of ?a'] by simp
    moreover have "no_freeList a \<longrightarrow> no_freeList ?a'"
      using nf [of ?a'] by simp
    ultimately show ?thesis
      using eq by simp
  next
    case False
    let ?a' = "a\<lparr>mpool := set_pool (unat B # pool (mpool a)) (mpool a), currBlockSize := B, index := 1\<rparr>"
    have eq: "allocate_from_block B a = Inr (?p, ?a')"
      using False \<open>index a = currBlockSize a\<close> by (simp add: allocate_from_block_def)
    have "pool_wf ?a'"
      using assms(2) by (auto simp: pool_wf_def word_le_one)
    moreover have "\<not> handed_out a ?p" "handed_out ?a' ?p"
      by simp_all
    moreover have "handed_out a q \<longrightarrow> handed_out ?a' q" for q
      using mono [of ?a'] by simp
    moreover have "no_freeList a \<longrightarrow> no_freeList ?a'"
      using nf [of ?a'] by simp
    ultimately show ?thesis
      using eq by simp
  qed
next
  case False
  with assms obtain c older where p: "pool (mpool a) = c # older"
    by (cases "pool (mpool a)") (auto simp: pool_wf_def)
  let ?a' = "a\<lparr>index := index a + 1\<rparr>"
  have eq: "allocate_from_block B a = Inr (Slot (length older) (unat (index a)), ?a')"
    using False p by (simp add: allocate_from_block_def)
  have step: "index a + 1 \<noteq> currBlockSize a \<Longrightarrow> unat (index a + 1) = Suc (unat (index a))"
    using assms(1) False wrap32 [of "index a" "currBlockSize a"] unat_succ_32 [of "index a"]
    by (auto simp: pool_wf_def)
  have "\<not> handed_out a (Slot (length older) (unat (index a)))"
    using False p by simp
  moreover have "handed_out ?a' (Slot (length older) (unat (index a)))"
    using p step by simp
  moreover have "handed_out a q \<longrightarrow> handed_out ?a' q" for q
    using False p step by (cases q) auto
  moreover have "pool_wf ?a'"
    using assms(1) False p by (auto simp: pool_wf_def word_succ_le_32)
  moreover have "no_freeList a \<longrightarrow> no_freeList ?a'"
    by (simp add: no_freeList_def)
  ultimately show ?thesis
    using eq by simp
qed

lemma allocate_freeList:
  "freeList_head (mpool a) = Some fld \<Longrightarrow>
   allocate B 1 a = Inr (fld, a\<lparr>mpool := MemoryPool_true (pool (mpool a)) (nextFree a fld)\<rparr>)"
  by (cases "mpool a") (simp_all add: allocate_def)

lemma allocate_no_free:
  "freeList_head (mpool a) = None \<Longrightarrow> allocate B 1 a = allocate_from_block B a"
  by (cases "mpool a") (simp_all add: allocate_def)

lemma no_freeList_head: "no_freeList a \<Longrightarrow> freeList_head (mpool a) = None"
  by (cases "mpool a") (simp_all add: no_freeList_def)

lemma deallocate_no_freeList: "no_freeList a \<Longrightarrow> deallocate ptr n a = a"
  by (cases "mpool a") (simp_all add: no_freeList_def deallocate_def)

lemma pool_deallocate: "pool (mpool (deallocate ptr n a)) = pool (mpool a)"
  by (cases "mpool a") (simp_all add: deallocate_def)

lemma allocate_from_block_chain:
  "allocate_from_block B a = Inr (p, a') \<Longrightarrow> \<exists>new. pool (mpool a') = new @ pool (mpool a)"
  by (auto simp: allocate_from_block_def split: if_splits list.splits)

lemma allocate_chain:
  "allocate B n a = Inr (p, a') \<Longrightarrow> \<exists>new. pool (mpool a') = new @ pool (mpool a)"
  by (cases "mpool a")
     (auto simp: allocate_def split: if_splits option.splits dest: allocate_from_block_chain)

lemma in_block_Cons: "in_block chain p \<Longrightarrow> in_block (c # chain) p"
  by (cases p) (auto simp: nth_append)

lemma allocate_from_block_bounded:
  assumes "pool_bounded a" and "B \<noteq> 0"
  shows "\<exists>p a'. allocate_from_block B a = Inr (p, a') \<and> in_block (pool (mpool a')) p \<and>
           pool_bounded a' \<and> (pool (mpool a') = pool (mpool a) \<or> (\<exists>c. pool (mpool a') = c # pool (mpool a))) \<and>
           freeList_head (mpool a') = freeList_head (mpool a) \<and> nextFree a' = nextFree a"
proof (cases "index a = currBlockSize a")
  case True
  have pos: "0 < unat B" "0 < unat (currBlockSize a)"
    using assms by (simp_all add: pool_bounded_def unat_gt_0)
  show ?thesis
    using True assms pos
    by (auto simp: allocate_from_block_def pool_bounded_def word_le_one nth_append)
next
  case False
  with assms obtain c older where p: "pool (mpool a) = c # older" "c = unat (currBlockSize a)"
    by (cases "pool (mpool a)") (auto simp: pool_bounded_def)
  have lt: "index a < currBlockSize a"
    using False assms(1) by (simp add: pool_bounded_def less_le)
  then have "unat (index a) < c"
    using p(2) by (simp add: word_less_nat_alt)
  then show ?thesis
    using False p assms(1) by (auto simp: allocate_from_block_def pool_bounded_def word_succ_le_32 nth_append)
qed




lemma pool_inv_allocate:
  assumes "pool_inv (ps, a)" and "B \<noteq> 0"
  shows "\<exists>p a'. allocate B 1 a = Inr (p, a') \<and> pool_inv (p # ps, a')"
proof (cases "freeList_head (mpool a)")
  case None
  from allocate_from_block_bounded [OF _ assms(2), of a] assms(1)
  obtain p a' where st: "allocate_from_block B a = Inr (p, a')" "in_block (pool (mpool a')) p"
      "pool_bounded a'"
      "pool (mpool a') = pool (mpool a) \<or> (\<exists>c. pool (mpool a') = c # pool (mpool a))"
      "freeList_head (mpool a') = freeList_head (mpool a)" "nextFree a' = nextFree a"
    by (auto simp: pool_inv_def)
  have "in_block (pool (mpool a')) q" if "q \<in> set ps" for q
    using that st(4) assms(1) by (auto simp: pool_inv_def in_block_Cons)
  then have "pool_inv (p # ps, a')"
    using st assms(1) None by (auto simp: pool_inv_def)
  then show ?thesis
    using st(1) allocate_no_free [OF None, of B] by simp
next
  case (Some fld)
  let ?a' = "a\<lparr>mpool := MemoryPool_true (pool (mpool a)) (nextFree a fld)\<rparr>"
  have "pool_inv (fld # ps, ?a')"
    using assms(1) Some by (auto simp: pool_inv_def pool_bounded_def split: list.splits)
  then show ?thesis
    using allocate_freeList [OF Some, of B] by simp
qed

lemma pool_inv_deallocate:
  assumes "pool_inv (ps, a)" and "p \<in> set ps"
  shows "pool_inv (ps, deallocate p 1 a)"
  using assms
  by (cases "mpool a") (auto simp: pool_inv_def deallocate_def pool_bounded_def split: list.splits)

lemma pool_calls_inv:
  "pool_inv s \<Longrightarrow> B \<noteq> 0 \<Longrightarrow> disciplined B cs s \<Longrightarrow> \<exists>s'. pool_calls B cs s = Inr s' \<and> pool_inv s'"
proof (induction B cs s rule: pool_calls.induct)
  case (1 B s)
  then show ?case by simp
next
  case (2 B cs ps a)
  from pool_inv_allocate [OF "2.prems"(1,2)]
  obtain p a' where st: "allocate B 1 a = Inr (p, a')" "pool_inv (p # ps, a')"
    by blast
  with "2.IH" [of "(p, a')" p a'] "2.prems" show ?case
    by simp
next
  case (3 B p cs ps a)
  then show ?case
    using pool_inv_deallocate [of ps a p] by simp
qed

lemma pool_inv_ctor: "r \<noteq> 0 \<Longrightarrow> pool_inv ([], pool_allocator_ctor U r)"
  by (simp add: pool_inv_def pool_bounded_def pool_allocator_ctor_def)



lemma pool_bounded_wf: "pool_bounded a \<Longrightarrow> pool_wf a"
  by (auto simp: pool_bounded_def pool_wf_def split: list.splits)

lemma allocate_fresh_bounded:
  assumes "pool_wf a" and "no_freeList a" and "B \<noteq> 0"
  shows "\<exists>p a'. allocate B 1 a = Inr (p, a') \<and> \<not> handed_out a p \<and> handed_out a' p \<and>
           (\<forall>q. handed_out a q \<longrightarrow> handed_out a' q) \<and> pool_wf a' \<and> no_freeList a' \<and>
           (pool_bounded a \<longrightarrow> pool_bounded a' \<and> in_block (pool (mpool a')) p)"
proof -
  have al: "allocate B 1 a = allocate_from_block B a"
    by (rule allocate_no_free [OF no_freeList_head [OF assms(2)]])
  from allocate_from_block_fresh [OF assms(1,3)] assms(2)
  obtain p a' where st: "allocate_from_block B a = Inr (p, a')" "\<not> handed_out a p" "handed_out a' p"
      "\<forall>q. handed_out a q \<longrightarrow> handed_out a' q" "pool_wf a'" "no_freeList a'"
    by blast
  have "pool_bounded a' \<and> in_block (pool (mpool a')) p" if "pool_bounded a"
    using allocate_from_block_bounded [OF that assms(3)] st(1) by auto
  with st al show ?thesis
    by auto
qed

lemma allocate_keeps_no_freeList:
  "no_freeList a \<Longrightarrow> allocate B n a = Inr (p, a') \<Longrightarrow> no_freeList a'"
  by (cases "mpool a")
     (auto simp: no_freeList_def allocate_def allocate_from_block_def split: if_splits list.splits)

lemma pool_calls_inv_no_freeList:
  "pool_inv s \<Longrightarrow> no_freeList (snd s) \<Longrightarrow> B \<noteq> 0 \<Longrightarrow>
   \<exists>s'. pool_calls B cs s = Inr s' \<and> pool_inv s' \<and> no_freeList (snd s')"
proof (induction B cs s rule: pool_calls.induct)
  case (1 B s)
  then show ?case by simp
next
  case (2 B cs ps a)
  from pool_inv_allocate [OF "2.prems"(1,3)]
  obtain p a' where st: "allocate B 1 a = Inr (p, a')" "pool_inv (p # ps, a')"
    by blast
  have "no_freeList a'"
    using allocate_keeps_no_freeList [OF _ st(1)] "2.prems"(2) by simp
  with "2.IH" [of "(p, a')" p a'] st "2.prems"(3) show ?case
    by simp
next
  case (3 B p cs ps a)
  have "deallocate p 1 a = a"
    using deallocate_no_freeList [of a p 1] "3.prems"(2) by simp
  with 3 show ?case
    by simp
qed

section \<open>The claims about the allocator\<close>



text \<open>
  Claim C7, as stated, fails for an allocator instantiated with \<open>UseFreeList = false\<close>:
  after \<open>deallocate(ptr, 1)\<close> there is no free list holding \<open>ptr\<close>, and the next
  \<open>allocate(1)\<close> returns another slot.
\<close>

theorem deallocate_push_counterexample:
  "freeList_head (mpool (deallocate (Slot 0 0) 1
      (snd (projr (allocate 4 1 (pool_allocator_ctor False 2)))))) \<noteq> Some (Slot 0 0) \<and>
   fst (projr (allocate 4 1 (deallocate (Slot 0 0) 1
      (snd (projr (allocate 4 1 (pool_allocator_ctor False 2))))))) \<noteq> Slot 0 0"
  by (simp add: allocate_def allocate_from_block_def deallocate_def pool_allocator_ctor_def)

text \<open>
  Claim C7, amended. With the free list enabled, \<open>deallocate(ptr, 1)\<close> pushes \<open>ptr\<close>
  onto the free list (it stores the old head in the slot and makes \<open>ptr\<close> the head), and
  the next \<open>allocate(1)\<close> returns \<open>ptr\<close> and restores the old head. With the free
  list disabled, \<open>deallocate(ptr, 1)\<close> leaves the allocator unchanged. No call of
  \<open>deallocate\<close> changes the chain of blocks, every call of \<open>allocate\<close> keeps the
  old chain as a suffix of the new one, and the destructor releases exactly the blocks
  of the chain and leaves the chain empty.
\<close>

theorem deallocate_one_keeps_blocks:
  "(mpool a = MemoryPool_true blocks fl \<longrightarrow>
      deallocate ptr 1 a =
        a\<lparr>nextFree := (nextFree a)(ptr := fl), mpool := MemoryPool_true blocks (Some ptr)\<rparr> \<and>
      allocate BlockSize 1 (deallocate ptr 1 a) = Inr (ptr, a\<lparr>nextFree := (nextFree a)(ptr := fl)\<rparr>)) \<and>
   (mpool a = MemoryPool_false blocks \<longrightarrow> deallocate ptr 1 a = a) \<and>
   pool (mpool (deallocate ptr n a)) = pool (mpool a) \<and>
   (allocate BlockSize n a = Inr (p, a') \<longrightarrow> (\<exists>new. pool (mpool a') = new @ pool (mpool a))) \<and>
   pool_allocator_dtor a = (pool (mpool a), a\<lparr>mpool := MemoryPool_nullptr (mpool a)\<rparr>) \<and>
   pool (MemoryPool_nullptr (mpool a)) = []"
proof (intro conjI impI)
  assume m: "mpool a = MemoryPool_true blocks fl"
  then show d: "deallocate ptr 1 a =
      a\<lparr>nextFree := (nextFree a)(ptr := fl), mpool := MemoryPool_true blocks (Some ptr)\<rparr>"
    by (simp add: deallocate_def)
  show "allocate BlockSize 1 (deallocate ptr 1 a) = Inr (ptr, a\<lparr>nextFree := (nextFree a)(ptr := fl)\<rparr>)"
    unfolding d using m by (simp add: allocate_def)
next
  assume "mpool a = MemoryPool_false blocks"
  then show "deallocate ptr 1 a = a"
    by (simp add: deallocate_def)
next
  show "pool (mpool (deallocate ptr n a)) = pool (mpool a)"
    by (rule pool_deallocate)
next
  assume "allocate BlockSize n a = Inr (p, a')"
  then show "\<exists>new. pool (mpool a') = new @ pool (mpool a)"
    by (rule allocate_chain)
next
  have "release_blocks bs = bs" for bs
    by (induction bs) simp_all
  then show "pool_allocator_dtor a = (pool (mpool a), a\<lparr>mpool := MemoryPool_nullptr (mpool a)\<rparr>)"
    by (simp add: pool_allocator_dtor_def)
next
  show "pool (MemoryPool_nullptr (mpool a)) = []"
    by (cases "mpool a") simp_all
qed

theorem deallocate_one_keeps_blocks_witness:
  "mpool (pool_allocator_ctor True 2) = MemoryPool_true [] None \<and>
   allocate 4 1 (deallocate (Slot 0 0) 1 (pool_allocator_ctor True 2)) =
     Inr (Slot 0 0, (pool_allocator_ctor True 2)\<lparr>nextFree := (nextFree (pool_allocator_ctor True 2))(Slot 0 0 := None)\<rparr>) \<and>
   mpool (pool_allocator_ctor False 2) = MemoryPool_false [] \<and>
   deallocate (Slot 0 0) 1 (pool_allocator_ctor False 2) = pool_allocator_ctor False 2 \<and>
   allocate 4 1 (pool_allocator_ctor False 2) =
     Inr (Slot 0 0, (pool_allocator_ctor False 2)\<lparr>mpool := MemoryPool_false [2], index := 1\<rparr>) \<and>
   [2] = [2] @ pool (mpool (pool_allocator_ctor False 2))"
proof -
  let ?t = "pool_allocator_ctor True 2"
  let ?f = "pool_allocator_ctor False 2"
  have h1: "mpool ?t = MemoryPool_true [] None"
    by (simp add: pool_allocator_ctor_def)
  have h2: "mpool ?f = MemoryPool_false []"
    by (simp add: pool_allocator_ctor_def)
  have h3: "allocate 4 1 ?f = Inr (Slot 0 0, ?f\<lparr>mpool := MemoryPool_false [2], index := 1\<rparr>)"
    by (simp add: allocate_def allocate_from_block_def pool_allocator_ctor_def)
  have r1: "allocate 4 1 (deallocate (Slot 0 0) 1 ?t) =
      Inr (Slot 0 0, ?t\<lparr>nextFree := (nextFree ?t)(Slot 0 0 := None)\<rparr>)"
    using deallocate_one_keeps_blocks [where a = ?t and BlockSize = 4 and ptr = "Slot 0 0",
        THEN conjunct1, rule_format, OF h1, THEN conjunct2] .
  have r2: "deallocate (Slot 0 0) 1 ?f = ?f"
    using deallocate_one_keeps_blocks [where a = ?f and ptr = "Slot 0 0",
        THEN conjunct2, THEN conjunct1, rule_format, OF h2] .
  have "\<exists>new. pool (mpool (?f\<lparr>mpool := MemoryPool_false [2], index := 1\<rparr>)) = new @ pool (mpool ?f)"
    using deallocate_one_keeps_blocks [where a = ?f and BlockSize = 4 and n = 1,
        THEN conjunct2, THEN conjunct2, THEN conjunct2, THEN conjunct1, rule_format, OF h3] .
  then have r3: "[2] = [2] @ pool (mpool ?f)"
    by (simp add: pool_allocator_ctor_def)
  show ?thesis
    using h1 h2 h3 r1 r2 r3 by simp
qed

text \<open>
  Claim C10, as stated, fails for an allocator with the free list enabled whose client
  gives \<open>deallocate\<close> a pointer that no \<open>allocate\<close> returned: constructed with
  \<open>reserved = 2\<close>, after \<open>deallocate(ptr, 1)\<close> the next \<open>allocate(1)\<close> returns \<open>ptr\<close>,
  and there is no block at all that it could lie in.
\<close>

theorem undisciplined_allocate_counterexample:
  "(2 :: 32 word) \<noteq> 0 \<and>
   fst (projr (allocate 4 1 (deallocate (Slot 0 0) 1 (pool_allocator_ctor True 2)))) = Slot 0 0 \<and>
   pool (mpool (snd (projr (allocate 4 1 (deallocate (Slot 0 0) 1 (pool_allocator_ctor True 2)))))) = [] \<and>
   \<not> in_block (pool (mpool (snd (projr (allocate 4 1 (deallocate (Slot 0 0) 1 (pool_allocator_ctor True 2)))))))
      (fst (projr (allocate 4 1 (deallocate (Slot 0 0) 1 (pool_allocator_ctor True 2)))))"
  by (simp add: allocate_def deallocate_def pool_allocator_ctor_def)

text \<open>
  Claim C10, amended. Let an allocator be constructed with \<open>reserved \<ge> 1\<close> (and the
  \<open>BlockSize \<noteq> 0\<close> that the class asserts statically). With the free list disabled,
  every sequence of \<open>allocate(1)\<close> and \<open>deallocate(ptr, 1)\<close> calls runs without error,
  every slot returned lies inside the slot array of its block, and so does the slot of
  one more \<open>allocate(1)\<close>, whatever is passed to \<open>deallocate\<close>. With the free list
  enabled the same holds for a client that passes to \<open>deallocate\<close> only pointers that
  an earlier \<open>allocate(1)\<close> returned. Constructed with \<open>reserved = 0\<close>, the first
  \<open>allocate(1)\<close> creates a block of zero slots and returns its slot 0, which lies
  outside that block.
\<close>

theorem allocate_slot_in_bounds:
  "(reserved \<noteq> 0 \<and> BlockSize \<noteq> 0 \<and>
    (UseFreeList \<longrightarrow> disciplined BlockSize cs ([], pool_allocator_ctor UseFreeList reserved)) \<longrightarrow>
      (\<exists>ps a. pool_calls BlockSize cs ([], pool_allocator_ctor UseFreeList reserved) = Inr (ps, a) \<and>
         (\<forall>p \<in> set ps. in_block (pool (mpool a)) p) \<and>
         (\<exists>p a'. allocate BlockSize 1 a = Inr (p, a') \<and> in_block (pool (mpool a')) p))) \<and>
   (\<exists>a'. allocate BlockSize 1 (pool_allocator_ctor UseFreeList 0) = Inr (Slot 0 0, a') \<and>
      pool (mpool a') = [0] \<and> \<not> in_block (pool (mpool a')) (Slot 0 0))"
proof (intro conjI impI)
  assume h: "reserved \<noteq> 0 \<and> BlockSize \<noteq> 0 \<and>
    (UseFreeList \<longrightarrow> disciplined BlockSize cs ([], pool_allocator_ctor UseFreeList reserved))"
  let ?s = "([] :: pointer list, pool_allocator_ctor UseFreeList reserved)"
  have inv: "pool_inv ?s"
    using h by (simp add: pool_inv_ctor)
  have "\<exists>s'. pool_calls BlockSize cs ?s = Inr s' \<and> pool_inv s'"
  proof (cases UseFreeList)
    case True
    with h pool_calls_inv [OF inv, of BlockSize cs] show ?thesis
      by simp
  next
    case False
    then have "no_freeList (snd ?s)"
      by (simp add: no_freeList_def pool_allocator_ctor_def)
    with h pool_calls_inv_no_freeList [OF inv, of BlockSize cs] show ?thesis
      by blast
  qed
  then obtain s' where
    s': "pool_calls BlockSize cs ([], pool_allocator_ctor UseFreeList reserved) = Inr s'" "pool_inv s'"
    by blast
  obtain ps a where [simp]: "s' = (ps, a)"
    by (cases s')
  from pool_inv_allocate [of ps a BlockSize] s'(2) h
  obtain p a' where "allocate BlockSize 1 a = Inr (p, a')" "pool_inv (p # ps, a')"
    by auto
  then have "\<exists>p a'. allocate BlockSize 1 a = Inr (p, a') \<and> in_block (pool (mpool a')) p"
    by (auto simp: pool_inv_def)
  with s' show "\<exists>ps a. pool_calls BlockSize cs ([], pool_allocator_ctor UseFreeList reserved) = Inr (ps, a) \<and>
         (\<forall>p \<in> set ps. in_block (pool (mpool a)) p) \<and>
         (\<exists>p a'. allocate BlockSize 1 a = Inr (p, a') \<and> in_block (pool (mpool a')) p)"
    by (auto simp: pool_inv_def)
next
  show "\<exists>a'. allocate BlockSize 1 (pool_allocator_ctor UseFreeList 0) = Inr (Slot 0 0, a') \<and>
      pool (mpool a') = [0] \<and> \<not> in_block (pool (mpool a')) (Slot 0 0)"
    by (simp add: allocate_def allocate_from_block_def pool_allocator_ctor_def)
qed

theorem allocate_slot_in_bounds_witness:
  "((2::32 word) \<noteq> 0 \<and> (4::32 word) \<noteq> 0 \<and>
    disciplined 4 [Allocate, Allocate, Deallocate (Slot 0 0), Allocate, Allocate]
      ([], pool_allocator_ctor True 2) \<and>
    list_all (in_block (pool (mpool (snd (projr
        (pool_calls 4 [Allocate, Allocate, Deallocate (Slot 0 0), Allocate, Allocate]
           ([], pool_allocator_ctor True 2)))))))
      (fst (projr (pool_calls 4 [Allocate, Allocate, Deallocate (Slot 0 0), Allocate, Allocate]
           ([], pool_allocator_ctor True 2))))) \<and>
   list_all (in_block (pool (mpool (snd (projr
        (pool_calls 4 [Deallocate (Slot 7 7), Allocate, Allocate, Allocate]
           ([], pool_allocator_ctor False 2)))))))
      (fst (projr (pool_calls 4 [Deallocate (Slot 7 7), Allocate, Allocate, Allocate]
           ([], pool_allocator_ctor False 2))))"
proof -
  let ?cs = "[Allocate, Allocate, Deallocate (Slot 0 0), Allocate, Allocate]"
  let ?ds = "[Deallocate (Slot 7 7), Allocate, Allocate, Allocate]"
  have d: "disciplined 4 ?cs ([], pool_allocator_ctor True 2)"
    by (simp add: allocate_def allocate_from_block_def deallocate_def pool_allocator_ctor_def)
  have h1: "(2::32 word) \<noteq> 0 \<and> (4::32 word) \<noteq> 0 \<and>
     (True \<longrightarrow> disciplined 4 ?cs ([], pool_allocator_ctor True 2))"
    using d by simp
  have h2: "(2::32 word) \<noteq> 0 \<and> (4::32 word) \<noteq> 0 \<and>
     (False \<longrightarrow> disciplined 4 ?ds ([], pool_allocator_ctor False 2))"
    by simp
  from allocate_slot_in_bounds [where reserved = 2 and BlockSize = 4 and cs = ?cs and UseFreeList = True,
      THEN conjunct1, rule_format, OF h1]
  obtain ps a where "pool_calls 4 ?cs ([], pool_allocator_ctor True 2) = Inr (ps, a)"
    "\<forall>p \<in> set ps. in_block (pool (mpool a)) p"
    by blast
  then have r1: "list_all (in_block (pool (mpool (snd (projr (pool_calls 4 ?cs ([], pool_allocator_ctor True 2)))))))
      (fst (projr (pool_calls 4 ?cs ([], pool_allocator_ctor True 2))))"
    by (simp add: list_all_iff)
  from allocate_slot_in_bounds [where reserved = 2 and BlockSize = 4 and cs = ?ds and UseFreeList = False,
      THEN conjunct1, rule_format, OF h2]
  obtain ps a where "pool_calls 4 ?ds ([], pool_allocator_ctor False 2) = Inr (ps, a)"
    "\<forall>p \<in> set ps. in_block (pool (mpool a)) p"
    by blast
  then have r2: "list_all (in_block (pool (mpool (snd (projr (pool_calls 4 ?ds ([], pool_allocator_ctor False 2)))))))
      (fst (projr (pool_calls 4 ?ds ([], pool_allocator_ctor False 2))))"
    by (simp add: list_all_iff)
  show ?thesis
    using d r1 r2 by simp
qed

section \<open>Lemmas about the cache\<close>

lemma find_unique:
  "x \<in> set xs \<Longrightarrow> P x \<Longrightarrow> (\<forall>y \<in> set xs. P y \<longrightarrow> y = x) \<Longrightarrow> find P xs = Some x"
proof (induction xs)
  case Nil
  then show ?case by simp
next
  case (Cons z zs)
  show ?case
  proof (cases "P z")
    case True
    with Cons.prems(3) have "z = x" by simp
    with True show ?thesis by simp
  next
    case False
    with Cons.prems have "x \<in> set zs" by auto
    moreover from Cons.prems(3) have "\<forall>y \<in> set zs. P y \<longrightarrow> y = x" by simp
    ultimately have "find P zs = Some x"
      using Cons.IH Cons.prems(2) by blast
    with False show ?thesis by simp
  qed
qed

lemma map_filter_all_Some:
  "(\<forall>x \<in> set xs. f (h x) = Some (g x)) \<Longrightarrow> List.map_filter f (map h xs) = map g xs"
  by (induction xs) (simp_all add: map_filter_simps)

lemma filter_same_key:
  "distinct (map f xs) \<Longrightarrow> x \<in> set xs \<Longrightarrow> filter (\<lambda>y. f y = f x) xs = [x]"
proof (induction xs)
  case Nil
  then show ?case by simp
next
  case (Cons y ys)
  show ?case
  proof (cases "y = x")
    case True
    with Cons.prems have "\<forall>z \<in> set ys. f z \<noteq> f x"
      by (metis distinct.simps(2) image_eqI list.simps(9) set_map)
    then have "filter (\<lambda>y. f y = f x) ys = []"
      by (simp add: filter_empty_conv)
    with True show ?thesis by simp
  next
    case False
    with Cons.prems have "x \<in> set ys" "f y \<noteq> f x"
      by auto
    with Cons show ?thesis by simp
  qed
qed

lemma distinct_map_eq:
  "distinct (map f xs) \<Longrightarrow> x \<in> set xs \<Longrightarrow> y \<in> set xs \<Longrightarrow> f y = f x \<longleftrightarrow> y = x"
  by (metis distinct_map inj_on_eq_iff)

lemma filter_two_keys:
  assumes "distinct (map f xs)" and "distinct (map g xs)" and "x \<in> set xs"
  shows "filter (\<lambda>y. f y \<noteq> f x) xs = filter (\<lambda>y. g y \<noteq> g x) xs"
proof (rule filter_cong [OF refl])
  fix y assume "y \<in> set xs"
  then show "(f y \<noteq> f x) = (g y \<noteq> g x)"
    using distinct_map_eq [OF assms(1) assms(3)] distinct_map_eq [OF assms(2) assms(3)] by simp
qed

lemma mset_split_key:
  assumes "distinct (map f xs)" and "x \<in> set xs"
  shows "mset xs = add_mset x (mset (filter (\<lambda>y. f y \<noteq> f x) xs))"
proof -
  have "mset xs = mset (filter (\<lambda>y. f y = f x) xs) + mset (filter (\<lambda>y. \<not> f y = f x) xs)"
    using multiset_partition [of "mset xs" "\<lambda>y. f y = f x"] by (simp only: mset_filter)
  then show ?thesis
    using filter_same_key [OF assms] by simp
qed

lemma inv_dict_set: "lru_inv c qs \<Longrightarrow> set (dict c) = MapNode_of ` set qs"
  by (metis lru_inv_def mset_eq_setD set_map)

lemma inv_dict_find:
  assumes "lru_inv c qs" and "q \<in> set qs"
  shows "dict_find (dict c) (link_key q) = Some (MapNode_of q)"
  unfolding dict_find_def
proof (rule find_unique)
  show "MapNode_of q \<in> set (dict c)"
    using assms by (simp add: inv_dict_set)
  show "fst (snd (MapNode_of q)) = link_key q"
    by (simp add: MapNode_of_def)
  show "\<forall>y \<in> set (dict c). fst (snd y) = link_key q \<longrightarrow> y = MapNode_of q"
  proof (intro ballI impI)
    fix y assume "y \<in> set (dict c)" and k: "fst (snd y) = link_key q"
    then obtain r where r: "r \<in> set qs" "y = MapNode_of r"
      using assms(1) by (auto simp: inv_dict_set)
    with k have "link_key r = link_key q"
      by (simp add: MapNode_of_def)
    with r assms have "r = q"
      using distinct_map_eq [of link_key qs q r] by (simp add: lru_inv_def)
    with r show "y = MapNode_of q" by simp
  qed
qed

lemma inv_dict_find_None:
  assumes "lru_inv c qs" and "k \<notin> link_key ` set qs"
  shows "dict_find (dict c) k = None"
  using assms by (auto simp: dict_find_def find_None_iff inv_dict_set MapNode_of_def)

lemma inv_key_at:
  assumes "lru_inv c qs" and "q \<in> set qs"
  shows "key_at (dict c) (Some (link_node q)) = Some (link_key q)"
proof -
  have "find (\<lambda>n. fst n = link_node q) (dict c) = Some (MapNode_of q)"
  proof (rule find_unique)
    show "MapNode_of q \<in> set (dict c)"
      using assms by (simp add: inv_dict_set)
    show "fst (MapNode_of q) = link_node q"
      by (simp add: MapNode_of_def)
    show "\<forall>y \<in> set (dict c). fst y = link_node q \<longrightarrow> y = MapNode_of q"
    proof (intro ballI impI)
      fix y assume "y \<in> set (dict c)" and k: "fst y = link_node q"
      then obtain r where r: "r \<in> set qs" "y = MapNode_of r"
        using assms(1) by (auto simp: inv_dict_set)
      with k have "link_node r = link_node q"
        by (simp add: MapNode_of_def)
      with r assms have "r = q"
        using distinct_map_eq [of link_node qs q r] by (simp add: lru_inv_def)
      with r show "y = MapNode_of q" by simp
    qed
  qed
  then show ?thesis
    by (simp add: key_at_def MapNode_of_def)
qed

lemma list_node_links:
  assumes "distinct (map link_it qs)" and "q \<in> set qs"
  shows "list_node (map ListNode_of qs) (link_it q) = Some (ListNode_of q)"
  unfolding list_node_def
proof (rule find_unique)
  show "ListNode_of q \<in> set (map ListNode_of qs)"
    using assms by simp
  show "fst (ListNode_of q) = link_it q"
    by (simp add: ListNode_of_def)
  show "\<forall>y \<in> set (map ListNode_of qs). fst y = link_it q \<longrightarrow> y = ListNode_of q"
  proof (intro ballI impI)
    fix y assume "y \<in> set (map ListNode_of qs)" and k: "fst y = link_it q"
    then obtain r where r: "r \<in> set qs" "y = ListNode_of r"
      by auto
    with k have "link_it r = link_it q"
      by (simp add: ListNode_of_def)
    with r assms have "r = q"
      using distinct_map_eq [of link_it qs q r] by simp
    with r show "y = ListNode_of q" by simp
  qed
qed

lemma inv_entries:
  assumes "lru_inv c qs"
  shows "entries c = map entry_of qs"
proof -
  have "List.map_filter
       (\<lambda>n. map_option (\<lambda>k. (k, snd (snd n))) (key_at (dict c) (fst (snd n)))) (map ListNode_of qs)
     = map entry_of qs"
  proof (rule map_filter_all_Some, intro ballI)
    fix q assume "q \<in> set qs"
    then show "map_option (\<lambda>k. (k, snd (snd (ListNode_of q)))) (key_at (dict c) (fst (snd (ListNode_of q))))
        = Some (entry_of q)"
      using inv_key_at [OF assms] by (simp add: ListNode_of_def entry_of_def)
  qed
  then show ?thesis
    using assms by (simp add: entries_def lru_inv_def)
qed

lemma map_of_entries:
  assumes "distinct (map link_key qs)"
  shows "q \<in> set qs \<Longrightarrow> map_of (map entry_of qs) (link_key q) = Some (link_value q)"
    and "k \<notin> link_key ` set qs \<Longrightarrow> map_of (map entry_of qs) k = None"
proof -
  have fst_eq: "map fst (map entry_of qs) = map link_key qs"
    by (simp add: entry_of_def)
  show "map_of (map entry_of qs) (link_key q) = Some (link_value q)" if "q \<in> set qs"
  proof (rule map_of_is_SomeI)
    show "distinct (map fst (map entry_of qs))"
      using assms by (simp only: fst_eq)
    show "(link_key q, link_value q) \<in> set (map entry_of qs)"
      using that by (auto simp: entry_of_def)
  qed
  show "map_of (map entry_of qs) k = None" if "k \<notin> link_key ` set qs"
    using that by (simp add: map_of_eq_None_iff image_image entry_of_def)
qed

lemma value_at_links:
  "distinct (map link_it qs) \<Longrightarrow> q \<in> set qs \<Longrightarrow>
   value_at (map ListNode_of qs) (link_it q) = Some (link_value q)"
  by (simp add: value_at_def list_node_links) (simp add: ListNode_of_def)

lemma filter_ListNode_of:
  "filter (\<lambda>m. fst m \<noteq> it) (map ListNode_of qs) = map ListNode_of (filter (\<lambda>r. link_it r \<noteq> it) qs)"
  by (induction qs) (simp_all add: ListNode_of_def)

lemma splice_links:
  assumes "distinct (map link_it qs)" and "q \<in> set qs"
  shows "splice_end (map ListNode_of qs) (link_it q) = Some (map ListNode_of (touch q (link_value q) qs))"
  using list_node_links [OF assms]
  by (simp add: splice_end_def filter_ListNode_of touch_def)

lemma assign_second_touch:
  "assign_second (link_it q) v (map ListNode_of (touch q w qs)) = map ListNode_of (touch q v qs)"
proof -
  have "assign_second (link_it q) v (map ListNode_of (filter (\<lambda>r. link_it r \<noteq> link_it q) qs))
      = map ListNode_of (filter (\<lambda>r. link_it r \<noteq> link_it q) qs)"
    by (induction qs) (simp_all add: assign_second_def ListNode_of_def)
  then show ?thesis
    by (simp add: touch_def assign_second_def ListNode_of_def)
qed

lemma mset_map_touch:
  assumes "distinct (map link_it qs)" and "q \<in> set qs"
    and "f (Link (link_it q) (link_node q) (link_key q) v) = f q"
  shows "mset (map f (touch q v qs)) = mset (map f qs)"
proof -
  have "mset (map f qs) = image_mset f (mset qs)"
    by simp
  also have "\<dots> = image_mset f (add_mset q (mset (filter (\<lambda>r. link_it r \<noteq> link_it q) qs)))"
    using mset_split_key [OF assms(1,2)] by simp
  finally show ?thesis
    using assms(3) by (simp add: touch_def)
qed

lemma set_touch:
  "q \<in> set qs \<Longrightarrow> r \<in> set (touch q v qs) \<Longrightarrow>
   \<exists>r' \<in> set qs. link_it r = link_it r' \<and> link_node r = link_node r' \<and> link_key r = link_key r'"
  by (auto simp: touch_def)

lemma entries_touch:
  assumes "distinct (map link_it qs)" and "distinct (map link_key qs)" and "q \<in> set qs"
  shows "map entry_of (touch q v qs) =
    filter (\<lambda>e. fst e \<noteq> link_key q) (map entry_of qs) @ [(link_key q, v)]"
proof -
  have "filter (\<lambda>e. fst e \<noteq> link_key q) (map entry_of qs)
      = map entry_of (filter (\<lambda>r. link_key r \<noteq> link_key q) qs)"
    by (induction qs) (simp_all add: entry_of_def)
  then show ?thesis
    using filter_two_keys [OF assms(1,2,3)] by (simp add: touch_def entry_of_def)
qed

lemma inv_touch:
  assumes "lru_inv c qs" and "q \<in> set qs"
  shows "lru_inv (c\<lparr>cache := map ListNode_of (touch q v qs)\<rparr>) (touch q v qs)"
proof -
  from assms(1) have d: "distinct (map link_it qs)"
    by (simp add: lru_inv_def)
  note m = mset_map_touch [OF d assms(2)]
  have mi: "mset (map link_it (touch q v qs)) = mset (map link_it qs)"
    and mn: "mset (map link_node (touch q v qs)) = mset (map link_node qs)"
    and mk: "mset (map link_key (touch q v qs)) = mset (map link_key qs)"
    and mm: "mset (map MapNode_of (touch q v qs)) = mset (map MapNode_of qs)"
    by (rule m, simp add: MapNode_of_def)+
  have len: "length (touch q v qs) = length qs"
    using mset_eq_length [OF mi] by simp
  have ho: "handed_out (cache_alloc c) (link_it r) \<and> handed_out (dict_alloc c) (link_node r)"
    if "r \<in> set (touch q v qs)" for r
    using set_touch [OF assms(2) that] assms(1) by (auto simp: lru_inv_def)
  show ?thesis
    using assms(1) mm len ho
      mset_eq_imp_distinct_iff [OF mi] mset_eq_imp_distinct_iff [OF mn] mset_eq_imp_distinct_iff [OF mk]
    by (simp add: lru_inv_def)
qed

lemma touch_same_value:
  "touch q (link_value q) qs = filter (\<lambda>r. link_it r \<noteq> link_it q) qs @ [q]"
  by (simp add: touch_def)

lemma get_hit:
  assumes "lru_inv c qs" and "q \<in> set qs"
  shows "get (link_key q) c =
    Inr (Some (link_it q), c\<lparr>cache := map ListNode_of (touch q (link_value q) qs)\<rparr>)"
proof -
  from assms(1) have d: "distinct (map link_it qs)" and l: "cache c = map ListNode_of qs"
    by (simp_all add: lru_inv_def)
  show ?thesis
    using inv_dict_find [OF assms] splice_links [OF d assms(2)] l
    by (simp add: get_def MapNode_of_def)
qed

lemma get_miss:
  assumes "lru_inv c qs" and "k \<notin> link_key ` set qs"
  shows "get k c = Inr (None, c)"
  using inv_dict_find_None [OF assms] by (simp add: get_def)

lemma peek_hit:
  assumes "lru_inv c qs" and "q \<in> set qs"
  shows "peek (link_key q) c = Inr (Some (link_it q), c)"
proof -
  from assms(1) have d: "distinct (map link_it qs)" and l: "cache c = map ListNode_of qs"
    by (simp_all add: lru_inv_def)
  show ?thesis
    using inv_dict_find [OF assms] list_node_links [OF d assms(2)] l
    by (simp add: peek_def MapNode_of_def)
qed

lemma peek_miss:
  assumes "lru_inv c qs" and "k \<notin> link_key ` set qs"
  shows "peek k c = Inr (None, c)"
  using inv_dict_find_None [OF assms] by (simp add: peek_def)

lemma insert_hit:
  assumes "lru_inv c qs" and "q \<in> set qs"
  shows "insert_lru B (link_key q) v update c =
    Inr ((link_it q, False),
         c\<lparr>cache := map ListNode_of (touch q (if update then v else link_value q) qs)\<rparr>)"
proof -
  from assms(1) have d: "distinct (map link_it qs)" and l: "cache c = map ListNode_of qs"
    by (simp_all add: lru_inv_def)
  show ?thesis
    using inv_dict_find [OF assms] splice_links [OF d assms(2)] l
    by (simp add: insert_lru_def MapNode_of_def assign_second_touch)
qed

lemma allocate_fresh:
  assumes "pool_wf a" and "no_freeList a" and "B \<noteq> 0"
  shows "\<exists>p a'. allocate B 1 a = Inr (p, a') \<and> \<not> handed_out a p \<and> handed_out a' p \<and>
           (\<forall>q. handed_out a q \<longrightarrow> handed_out a' q) \<and> pool_wf a' \<and> no_freeList a'"
  using allocate_from_block_fresh [OF assms(1,3)] allocate_no_free [OF no_freeList_head [OF assms(2)], of B]
    assms(2)
  by auto

lemma assign_first_fresh:
  assumes "\<forall>n \<in> set l. fst n \<noteq> pos"
  shows "assign_first pos p (l @ [(pos, None, v)]) = l @ [(pos, p, v)]"
proof -
  have "map (\<lambda>n. if fst n = pos then (fst n, p, snd (snd n)) else n) l = l"
    using assms by (induction l) simp_all
  then show ?thesis
    by (simp add: assign_first_def)
qed

lemma insert_append:
  assumes "lru_inv c qs" and "k \<notin> link_key ` set qs" and "length qs \<noteq> limit c" and "B \<noteq> 0"
  shows "(insert_lru B k v update c = Inl Out_Of_Block \<and> \<not> lru_bounded c) \<or>
    (\<exists>pos mapIt lalloc dalloc.
      insert_lru B k v update c =
        Inr ((pos, True),
             c\<lparr>cache_alloc := lalloc, dict_alloc := dalloc, dict := (mapIt, k, pos) # dict c,
               cache := map ListNode_of (qs @ [Link pos mapIt k v])\<rparr>) \<and>
      lru_inv (c\<lparr>cache_alloc := lalloc, dict_alloc := dalloc, dict := (mapIt, k, pos) # dict c,
               cache := map ListNode_of (qs @ [Link pos mapIt k v])\<rparr>) (qs @ [Link pos mapIt k v]) \<and>
      (lru_bounded c \<longrightarrow> pool_bounded lalloc \<and> pool_bounded dalloc))"
proof -
  from assms(1) have inv:
    "cache c = map ListNode_of qs" "mset (dict c) = mset (map MapNode_of qs)"
    "distinct (map link_it qs)" "distinct (map link_node qs)" "distinct (map link_key qs)"
    "length qs \<le> limit c" "0 < limit c"
    "pool_wf (cache_alloc c)" "no_freeList (cache_alloc c)"
    "pool_wf (dict_alloc c)" "no_freeList (dict_alloc c)"
    "\<forall>q \<in> set qs. handed_out (cache_alloc c) (link_it q) \<and> handed_out (dict_alloc c) (link_node q)"
    by (simp_all add: lru_inv_def)
  from allocate_fresh_bounded [OF inv(8,9) assms(4)]
  obtain pos lalloc where la: "allocate B 1 (cache_alloc c) = Inr (pos, lalloc)"
      "\<not> handed_out (cache_alloc c) pos" "handed_out lalloc pos"
      "\<forall>q. handed_out (cache_alloc c) q \<longrightarrow> handed_out lalloc q" "pool_wf lalloc" "no_freeList lalloc"
      "pool_bounded (cache_alloc c) \<longrightarrow> pool_bounded lalloc \<and> in_block (pool (mpool lalloc)) pos"
    by blast
  from allocate_fresh_bounded [OF inv(10,11) assms(4)]
  obtain mapIt dalloc where da: "allocate B 1 (dict_alloc c) = Inr (mapIt, dalloc)"
      "\<not> handed_out (dict_alloc c) mapIt" "handed_out dalloc mapIt"
      "\<forall>q. handed_out (dict_alloc c) q \<longrightarrow> handed_out dalloc q" "pool_wf dalloc" "no_freeList dalloc"
      "pool_bounded (dict_alloc c) \<longrightarrow> pool_bounded dalloc \<and> in_block (pool (mpool dalloc)) mapIt"
    by blast
  have len: "length (dict c) = length qs"
    using mset_eq_length [OF inv(2)] by simp
  have none: "dict_find (dict c) k = None"
    by (rule inv_dict_find_None [OF assms(1,2)])
  show ?thesis
  proof (cases "in_block (pool (mpool lalloc)) pos")
    case False
    then have "list_insert_end B None v (cache_alloc c, cache c) = Inl Out_Of_Block"
      using la(1) by (simp add: list_insert_end_def)
    then have "insert_lru B k v update c = Inl Out_Of_Block"
      using none assms(3) len by (simp add: insert_lru_def)
    moreover have "\<not> lru_bounded c"
      using False la(7) by (auto simp: lru_bounded_def)
    ultimately show ?thesis
      by simp
  next
    case True
    note in_l = this
    have li: "list_insert_end B None v (cache_alloc c, cache c) = Inr (pos, lalloc, cache c @ [(pos, None, v)])"
      using la(1) True by (simp add: list_insert_end_def)
    show ?thesis
    proof (cases "in_block (pool (mpool dalloc)) mapIt")
      case False
      then have "try_emplace B k pos (dict_alloc c, dict c) = Inl Out_Of_Block"
        using da(1) none by (simp add: try_emplace_def)
      then have "insert_lru B k v update c = Inl Out_Of_Block"
        using none assms(3) len li by (simp add: insert_lru_def)
      moreover have "\<not> lru_bounded c"
        using False da(7) by (auto simp: lru_bounded_def)
      ultimately show ?thesis
        by simp
    next
      case True
      let ?qs' = "qs @ [Link pos mapIt k v]"
      let ?c' = "c\<lparr>cache_alloc := lalloc, dict_alloc := dalloc, dict := (mapIt, k, pos) # dict c,
                 cache := map ListNode_of ?qs'\<rparr>"
      have fresh_it: "pos \<notin> link_it ` set qs" and fresh_node: "mapIt \<notin> link_node ` set qs"
        using la(2) da(2) inv(12) by auto
      then have "\<forall>n \<in> set (cache c). fst n \<noteq> pos"
        by (auto simp: inv(1) ListNode_of_def)
      then have af: "assign_first pos (Some mapIt) (cache c @ [(pos, None, v)]) = map ListNode_of ?qs'"
        by (simp add: assign_first_fresh inv(1) ListNode_of_def)
      have te: "try_emplace B k pos (dict_alloc c, dict c) = Inr ((mapIt, True), dalloc, (mapIt, k, pos) # dict c)"
        using da(1) none True by (simp add: try_emplace_def)
      have eq: "insert_lru B k v update c = Inr ((pos, True), ?c')"
        using none assms(3) len li te af by (simp add: insert_lru_def)
      have "lru_inv ?c' ?qs'"
        unfolding lru_inv_def
        using inv assms(2,3) fresh_it fresh_node la(3-6) da(3-6)
        by (auto simp: MapNode_of_def)
      moreover have "lru_bounded c \<longrightarrow> pool_bounded lalloc \<and> pool_bounded dalloc"
        using la(7) da(7) by (simp add: lru_bounded_def)
      ultimately show ?thesis
        using eq by blast
    qed
  qed
qed

lemma filter_rest:
  assumes "distinct (map f (q # rest))"
  shows "filter (\<lambda>r. f r \<noteq> f q) rest = rest"
proof -
  have "f r \<noteq> f q" if "r \<in> set rest" for r
    using assms that by (metis distinct.simps(2) image_eqI list.simps(9) set_map)
  then show ?thesis
    by (simp add: filter_id_conv)
qed

lemma insert_evict:
  assumes "lru_inv c (q # rest)" and "k \<notin> link_key ` set (q # rest)"
    and "length (q # rest) = limit c"
  shows "insert_lru B k v update c =
      Inr ((link_it q, True),
           c\<lparr>dict := (link_node q, k, link_it q) # filter (\<lambda>n. fst (snd n) \<noteq> link_key q) (dict c),
             cache := map ListNode_of (rest @ [Link (link_it q) (link_node q) k v])\<rparr>)"
    and "lru_inv
          (c\<lparr>dict := (link_node q, k, link_it q) # filter (\<lambda>n. fst (snd n) \<noteq> link_key q) (dict c),
             cache := map ListNode_of (rest @ [Link (link_it q) (link_node q) k v])\<rparr>)
          (rest @ [Link (link_it q) (link_node q) k v])"
proof -
  let ?qs = "q # rest"
  let ?q' = "Link (link_it q) (link_node q) k v"
  let ?d = "filter (\<lambda>n. fst (snd n) \<noteq> link_key q) (dict c)"
  from assms(1) have inv:
    "cache c = map ListNode_of ?qs" "mset (dict c) = mset (map MapNode_of ?qs)"
    "distinct (map link_it ?qs)" "distinct (map link_node ?qs)" "distinct (map link_key ?qs)"
    "length ?qs \<le> limit c" "0 < limit c"
    "pool_wf (cache_alloc c)" "no_freeList (cache_alloc c)"
    "pool_wf (dict_alloc c)" "no_freeList (dict_alloc c)"
    "\<forall>r \<in> set ?qs. handed_out (cache_alloc c) (link_it r) \<and> handed_out (dict_alloc c) (link_node r)"
    unfolding lru_inv_def by blast+
  have len: "length (dict c) = limit c"
    using mset_eq_length [OF inv(2)] assms(3) by simp
  have none: "dict_find (dict c) k = None"
    by (rule inv_dict_find_None [OF assms(1,2)])
  have front: "cache c = ListNode_of q # map ListNode_of rest"
    using inv(1) by simp
  have ka: "key_at (dict c) (fst (snd (ListNode_of q))) = Some (link_key q)"
    using inv_key_at [OF assms(1), of q] by (simp add: ListNode_of_def)
  have ex: "dict_extract (dict c) (link_key q) = (Some (MapNode_of q), ?d)"
    using inv_dict_find [OF assms(1), of q] by (simp add: dict_extract_def)
  have "filter (\<lambda>r. link_key r \<noteq> link_key q) rest = rest"
    by (rule filter_rest [OF inv(5)])
  then have md: "mset ?d = mset (map MapNode_of rest)"
  proof -
    have "mset ?d = filter_mset (\<lambda>n. fst (snd n) \<noteq> link_key q) (mset (map MapNode_of ?qs))"
      using inv(2) by (simp only: mset_filter)
    also have "\<dots> = mset (filter (\<lambda>n. fst (snd n) \<noteq> link_key q) (map MapNode_of ?qs))"
      by (simp only: mset_filter)
    also have "filter (\<lambda>n. fst (snd n) \<noteq> link_key q) (map MapNode_of ?qs)
        = map MapNode_of (filter (\<lambda>r. link_key r \<noteq> link_key q) ?qs)"
      by (simp add: filter_map comp_def MapNode_of_def)
    finally show ?thesis
      using \<open>filter (\<lambda>r. link_key r \<noteq> link_key q) rest = rest\<close> by simp
  qed
  have "dict_find ?d k = None"
    using none by (auto simp: dict_find_def find_None_iff)
  then have ins: "dict_insert_node (link_node q, k, link_it q) ?d = (True, (link_node q, k, link_it q) # ?d)"
    by (simp add: dict_insert_node_def)
  have "filter (\<lambda>r. link_it r \<noteq> link_it q) rest = rest"
    by (rule filter_rest [OF inv(3)])
  then have sp: "splice_end ((link_it q, Some (link_node q), v) # map ListNode_of rest) (link_it q)
      = Some (map ListNode_of (rest @ [?q']))"
    by (simp add: splice_end_def list_node_def filter_ListNode_of) (simp add: ListNode_of_def)
  show "insert_lru B k v update c =
      Inr ((link_it q, True),
           c\<lparr>dict := (link_node q, k, link_it q) # ?d, cache := map ListNode_of (rest @ [?q'])\<rparr>)"
    using none len front ka ex ins sp
    by (simp add: insert_lru_def) (simp add: MapNode_of_def ListNode_of_def)
  show "lru_inv
          (c\<lparr>dict := (link_node q, k, link_it q) # ?d, cache := map ListNode_of (rest @ [?q'])\<rparr>)
          (rest @ [?q'])"
    unfolding lru_inv_def
    using inv assms(2) md
    by (auto simp: MapNode_of_def)
qed

lemma inv_keys: "lru_inv c qs \<Longrightarrow> fst ` set (map entry_of qs) = link_key ` set qs"
  by (simp add: image_image entry_of_def)

lemma inv_present:
  assumes "lru_inv c qs"
  shows "present c k \<longleftrightarrow> k \<in> link_key ` set qs"
proof (cases "k \<in> link_key ` set qs")
  case True
  then obtain q where "q \<in> set qs" "k = link_key q"
    by auto
  with inv_dict_find [OF assms, of q] True show ?thesis
    by (simp add: present_def)
next
  case False
  with inv_dict_find_None [OF assms, of k] show ?thesis
    by (simp add: present_def)
qed

lemma insert_refines:
  assumes "lru_inv c qs" and "B \<noteq> 0"
  shows "(insert_lru B k v update c = Inl Out_Of_Block \<and> \<not> lru_bounded c) \<or>
    (\<exists>p b c' qs'. insert_lru B k v update c = Inr ((p, b), c') \<and> lru_inv c' qs' \<and>
           limit c' = limit c \<and>
           map entry_of qs' = spec_insert (limit c) k v update (map entry_of qs) \<and>
           (lru_bounded c \<longrightarrow> lru_bounded c'))"
proof -
  from assms(1) have dk: "distinct (map link_key qs)" and di: "distinct (map link_it qs)"
      and le: "length qs \<le> limit c" and pos: "0 < limit c"
    by (simp_all add: lru_inv_def)
  show ?thesis
  proof (cases "k \<in> link_key ` set qs")
    case True
    then obtain q where q: "q \<in> set qs" "k = link_key q"
      by auto
    let ?w = "if update then v else link_value q"
    let ?c' = "c\<lparr>cache := map ListNode_of (touch q ?w qs)\<rparr>"
    have "insert_lru B k v update c = Inr ((link_it q, False), ?c')"
      using insert_hit [OF assms(1) q(1)] q(2) by simp
    moreover have "lru_inv ?c' (touch q ?w qs)"
      by (rule inv_touch [OF assms(1) q(1)])
    moreover have "map entry_of (touch q ?w qs) = spec_insert (limit c) k v update (map entry_of qs)"
      using entries_touch [OF di dk q(1), where v = ?w] map_of_entries(1) [OF dk q(1)] q(2)
      by (simp add: spec_insert_def)
    moreover have "lru_bounded c \<longrightarrow> lru_bounded ?c'"
      by (simp add: lru_bounded_def)
    ultimately show ?thesis
      by (intro disjI2 exI [of _ "link_it q"] exI [of _ False] exI [of _ ?c'] exI [of _ "touch q ?w qs"]) simp
  next
    case False
    note absent = this
    have mo: "map_of (map entry_of qs) k = None"
      by (rule map_of_entries(2) [OF dk False])
    show ?thesis
    proof (cases "length qs = limit c")
      case False
      from insert_append [OF assms(1) absent False assms(2), where v = v and update = update]
      show ?thesis
      proof
        assume "insert_lru B k v update c = Inl Out_Of_Block \<and> \<not> lru_bounded c"
        then show ?thesis by simp
      next
        assume "\<exists>pos mapIt lalloc dalloc.
          insert_lru B k v update c =
            Inr ((pos, True),
                 c\<lparr>cache_alloc := lalloc, dict_alloc := dalloc, dict := (mapIt, k, pos) # dict c,
                   cache := map ListNode_of (qs @ [Link pos mapIt k v])\<rparr>) \<and>
          lru_inv (c\<lparr>cache_alloc := lalloc, dict_alloc := dalloc, dict := (mapIt, k, pos) # dict c,
                   cache := map ListNode_of (qs @ [Link pos mapIt k v])\<rparr>) (qs @ [Link pos mapIt k v]) \<and>
          (lru_bounded c \<longrightarrow> pool_bounded lalloc \<and> pool_bounded dalloc)"
        then obtain pos mapIt lalloc dalloc where
          st: "insert_lru B k v update c =
            Inr ((pos, True),
               c\<lparr>cache_alloc := lalloc, dict_alloc := dalloc, dict := (mapIt, k, pos) # dict c,
                 cache := map ListNode_of (qs @ [Link pos mapIt k v])\<rparr>)"
            "lru_inv (c\<lparr>cache_alloc := lalloc, dict_alloc := dalloc, dict := (mapIt, k, pos) # dict c,
                 cache := map ListNode_of (qs @ [Link pos mapIt k v])\<rparr>) (qs @ [Link pos mapIt k v])"
            "lru_bounded c \<longrightarrow> pool_bounded lalloc \<and> pool_bounded dalloc"
          by blast
        have "map entry_of (qs @ [Link pos mapIt k v]) = spec_insert (limit c) k v update (map entry_of qs)"
          using mo False le by (simp add: spec_insert_def entry_of_def)
        with st show ?thesis
          by (intro disjI2 exI [of _ pos] exI [of _ True]
              exI [of _ "c\<lparr>cache_alloc := lalloc, dict_alloc := dalloc, dict := (mapIt, k, pos) # dict c,
                 cache := map ListNode_of (qs @ [Link pos mapIt k v])\<rparr>"]
              exI [of _ "qs @ [Link pos mapIt k v]"]) (simp add: lru_bounded_def)
      qed
    next
      case True
      with pos obtain q rest where qs: "qs = q # rest"
        by (cases qs) auto
      let ?qs' = "rest @ [Link (link_it q) (link_node q) k v]"
      let ?c' = "c\<lparr>dict := (link_node q, k, link_it q) # filter (\<lambda>n. fst (snd n) \<noteq> link_key q) (dict c),
             cache := map ListNode_of ?qs'\<rparr>"
      have pre: "lru_inv c (q # rest)" "k \<notin> link_key ` set (q # rest)" "length (q # rest) = limit c"
        using assms(1) absent True unfolding qs by simp_all
      have "insert_lru B k v update c = Inr ((link_it q, True), ?c')" "lru_inv ?c' ?qs'"
        by (rule insert_evict(1) [OF pre], rule insert_evict(2) [OF pre])
      moreover have "map entry_of ?qs' = spec_insert (limit c) k v update (map entry_of qs)"
        using mo True unfolding qs by (simp add: spec_insert_def entry_of_def)
      moreover have "lru_bounded c \<longrightarrow> lru_bounded ?c'"
        by (simp add: lru_bounded_def)
      ultimately show ?thesis
        by (intro disjI2 exI [of _ "link_it q"] exI [of _ True] exI [of _ ?c'] exI [of _ ?qs']) simp
    qed
  qed
qed

lemma get_refines:
  assumes "lru_inv c qs"
  shows "\<exists>r c' qs'. get k c = Inr (r, c') \<and> lru_inv c' qs' \<and> limit c' = limit c \<and>
           map entry_of qs' = spec_get k (map entry_of qs) \<and>
           (lru_bounded c \<longrightarrow> lru_bounded c')"
proof -
  from assms(1) have dk: "distinct (map link_key qs)" and di: "distinct (map link_it qs)"
    by (simp_all add: lru_inv_def)
  show ?thesis
  proof (cases "k \<in> link_key ` set qs")
    case True
    then obtain q where q: "q \<in> set qs" "k = link_key q"
      by auto
    let ?c' = "c\<lparr>cache := map ListNode_of (touch q (link_value q) qs)\<rparr>"
    have "get k c = Inr (Some (link_it q), ?c')"
      using get_hit [OF assms(1) q(1)] q(2) by simp
    moreover have "lru_inv ?c' (touch q (link_value q) qs)"
      by (rule inv_touch [OF assms(1) q(1)])
    moreover have "map entry_of (touch q (link_value q) qs) = spec_get k (map entry_of qs)"
      using entries_touch [OF di dk q(1), where v = "link_value q"] map_of_entries(1) [OF dk q(1)] q(2)
      by (simp add: spec_get_def)
    moreover have "lru_bounded c \<longrightarrow> lru_bounded ?c'"
      by (simp add: lru_bounded_def)
    ultimately show ?thesis
      by (intro exI [of _ "Some (link_it q)"] exI [of _ ?c'] exI [of _ "touch q (link_value q) qs"]) simp
  next
    case False
    then have "get k c = Inr (None, c)" "map entry_of qs = spec_get k (map entry_of qs)"
      using get_miss [OF assms False] map_of_entries(2) [OF dk False] by (simp_all add: spec_get_def)
    with assms show ?thesis
      by (intro exI [of _ None] exI [of _ c] exI [of _ qs]) simp
  qed
qed

lemma peek_total:
  assumes "lru_inv c qs"
  shows "\<exists>r. peek k c = Inr (r, c)"
proof (cases "k \<in> link_key ` set qs")
  case True
  then obtain q where q: "q \<in> set qs" "k = link_key q"
    by auto
  with peek_hit [OF assms q(1)] show ?thesis by simp
next
  case False
  with peek_miss [OF assms] show ?thesis by simp
qed

lemma forEach_links_maps:
  "map link_it (fst (forEach_links fn qs s)) = map link_it qs"
  "map link_node (fst (forEach_links fn qs s)) = map link_node qs"
  "map link_key (fst (forEach_links fn qs s)) = map link_key qs"
  "map MapNode_of (fst (forEach_links fn qs s)) = map MapNode_of qs"
  by (induction qs arbitrary: s; simp add: MapNode_of_def)+

lemma forEach_links_entries:
  "map entry_of (fst (forEach_links fn qs s)) = fst (spec_forEach fn (map entry_of qs) s)"
  "snd (forEach_links fn qs s) = snd (spec_forEach fn (map entry_of qs) s)"
  by (induction qs arbitrary: s; simp add: entry_of_def)+

lemma spec_forEach_keys: "map fst (fst (spec_forEach fn es s)) = map fst es"
  by (induction es arbitrary: s) simp_all

lemma spec_forEach_observer:
  "(\<forall>k v t. fst (fn k v t) = v) \<Longrightarrow> fst (spec_forEach fn es s) = es"
  by (induction es arbitrary: s) simp_all

lemma forEach_links_observer:
  "(\<forall>k v t. fst (fn k v t) = v) \<Longrightarrow> fst (forEach_links fn qs s) = qs"
  by (induction qs arbitrary: s) simp_all

lemma inv_forEach_loop:
  assumes "lru_inv c qs"
  shows "set rs \<subseteq> set qs \<Longrightarrow>
    forEach_loop (dict c) fn (map ListNode_of rs) s =
      Inr (map ListNode_of (fst (forEach_links fn rs s)), snd (forEach_links fn rs s))"
proof (induction rs arbitrary: s)
  case Nil
  then show ?case by simp
next
  case (Cons r rs)
  then have "key_at (dict c) (Some (link_node r)) = Some (link_key r)"
    using inv_key_at [OF assms, of r] by simp
  with Cons show ?case
    by (simp add: ListNode_of_def)
qed

lemma inv_forEach_links:
  assumes "lru_inv c qs"
  shows "lru_inv (c\<lparr>cache := map ListNode_of (fst (forEach_links fn qs s))\<rparr>) (fst (forEach_links fn qs s))"
proof -
  let ?qs' = "fst (forEach_links fn qs s)"
  note m = forEach_links_maps [of fn qs s]
  have len: "length ?qs' = length qs"
    using m(1) by (metis length_map)
  have "link_it ` set ?qs' = link_it ` set qs" "link_node ` set ?qs' = link_node ` set qs"
    using m(1,2) by (metis set_map)+
  then have ho: "handed_out (cache_alloc c) (link_it r) \<and> handed_out (dict_alloc c) (link_node r)"
    if "r \<in> set ?qs'" for r
    using that assms by (auto simp: lru_inv_def) (metis imageE imageI)+
  show ?thesis
    using assms m len ho by (simp add: lru_inv_def)
qed

lemma forEach_entries:
  assumes "lru_inv c qs"
  shows "forEach fn s c =
    Inr (snd (forEach_links fn qs s), c\<lparr>cache := map ListNode_of (fst (forEach_links fn qs s))\<rparr>)"
proof -
  have "cache c = map ListNode_of qs"
    using assms by (simp add: lru_inv_def)
  then show ?thesis
    using inv_forEach_loop [OF assms, of qs fn s] by (simp add: forEach_def)
qed

lemma run_call_refines:
  assumes "lru_inv c qs" and "B \<noteq> 0"
  shows "(run_call B x c = Inl Out_Of_Block \<and> \<not> lru_bounded c) \<or>
    (\<exists>c' qs'. run_call B x c = Inr c' \<and> lru_inv c' qs' \<and> limit c' = limit c \<and>
           map entry_of qs' = spec_call (limit c) x (map entry_of qs) \<and>
           (lru_bounded c \<longrightarrow> lru_bounded c'))"
proof (cases x)
  case (Insert k v update)
  with insert_refines [OF assms, of k v update] show ?thesis
    by auto
next
  case (GetOrInsert k v)
  with insert_refines [OF assms, of k v False] show ?thesis
    by (auto simp: getOrInsert_def)
next
  case (Get k)
  with get_refines [OF assms(1), of k] show ?thesis
    by auto
next
  case (Peek k)
  with peek_total [OF assms(1), of k] assms(1) show ?thesis
    by auto
next
  case (ForEach fn s)
  let ?c' = "c\<lparr>cache := map ListNode_of (fst (forEach_links fn qs s))\<rparr>"
  have "run_call B x c = Inr ?c'"
    using ForEach forEach_entries [OF assms(1), of fn s] by simp
  moreover have "lru_inv ?c' (fst (forEach_links fn qs s))"
    by (rule inv_forEach_links [OF assms(1)])
  moreover have "map entry_of (fst (forEach_links fn qs s)) = spec_call (limit c) x (map entry_of qs)"
    using ForEach forEach_links_entries(1) [of fn qs s] by simp
  moreover have "lru_bounded c \<longrightarrow> lru_bounded ?c'"
    by (simp add: lru_bounded_def)
  ultimately show ?thesis
    by (intro disjI2 exI [of _ ?c'] exI [of _ "fst (forEach_links fn qs s)"]) simp
qed

lemma run_calls_refines:
  assumes "B \<noteq> 0"
  shows "lru_inv c qs \<Longrightarrow>
    (run_calls B xs c = Inl Out_Of_Block \<and> \<not> lru_bounded c) \<or>
    (\<exists>c' qs'. run_calls B xs c = Inr c' \<and> lru_inv c' qs' \<and> limit c' = limit c \<and>
      map entry_of qs' = spec_calls (limit c) xs (map entry_of qs) \<and>
      (lru_bounded c \<longrightarrow> lru_bounded c'))"
proof (induction xs arbitrary: c qs)
  case Nil
  then show ?case by auto
next
  case (Cons x xs)
  from run_call_refines [OF Cons.prems assms, of x]
  show ?case
  proof
    assume "run_call B x c = Inl Out_Of_Block \<and> \<not> lru_bounded c"
    then show ?thesis by simp
  next
    assume "\<exists>c' qs'. run_call B x c = Inr c' \<and> lru_inv c' qs' \<and> limit c' = limit c \<and>
           map entry_of qs' = spec_call (limit c) x (map entry_of qs) \<and>
           (lru_bounded c \<longrightarrow> lru_bounded c')"
    then obtain c1 qs1 where st: "run_call B x c = Inr c1" "lru_inv c1 qs1" "limit c1 = limit c"
        "map entry_of qs1 = spec_call (limit c) x (map entry_of qs)"
        "lru_bounded c \<longrightarrow> lru_bounded c1"
      by blast
    from Cons.IH [OF st(2)] show ?thesis
    proof
      assume "run_calls B xs c1 = Inl Out_Of_Block \<and> \<not> lru_bounded c1"
      with st show ?thesis by auto
    next
      assume "\<exists>c' qs'. run_calls B xs c1 = Inr c' \<and> lru_inv c' qs' \<and> limit c' = limit c1 \<and>
        map entry_of qs' = spec_calls (limit c1) xs (map entry_of qs1) \<and>
        (lru_bounded c1 \<longrightarrow> lru_bounded c')"
      with st show ?thesis by auto
    qed
  qed
qed

lemma constructed_inv:
  assumes "constructed B lim initCap c"
  shows "lru_inv c [] \<and> limit c = lim \<and> 0 < lim"
  using assms
  by (auto simp: constructed_def lru_cache_ctor_def lru_cache_ctor_initCap_def Let_def lru_inv_def
      pool_wf_def no_freeList_def pool_allocator_ctor_def split: if_splits)

lemma word_of_nat_nonzero:
  assumes "0 < n" and "n \<le> unat (B :: 32 word)"
  shows "(word_of_nat n :: 32 word) \<noteq> 0"
proof
  assume "(word_of_nat n :: 32 word) = 0"
  then have "unat (word_of_nat n :: 32 word) = 0"
    by simp
  then have "n mod 2 ^ 32 = 0"
    by (simp add: unat_of_nat)
  moreover have "unat B < 2 ^ 32"
    using unsigned_less [of B] by simp
  then have "n < 2 ^ 32"
    using assms(2) by simp
  ultimately show False
    using assms(1) by simp
qed

lemma constructed_nonzero_bounded:
  assumes "constructed_nonzero B lim initCap c" and "B \<noteq> 0"
  shows "constructed B lim initCap c \<and> lru_bounded c"
proof -
  from assms(1) have c: "constructed B lim initCap c"
    by (auto simp: constructed_nonzero_def constructed_def)
  have bd: "pool_bounded (pool_allocator_ctor False r)" if "r \<noteq> 0" for r
    using that by (simp add: pool_bounded_def pool_allocator_ctor_def)
  from assms(1) show ?thesis
    unfolding constructed_nonzero_def
  proof
    assume one: "lru_cache_ctor B lim = Inr c"
    then have pos: "0 < lim"
      by (auto simp: lru_cache_ctor_def Let_def split: if_splits)
    have "0 < unat B"
      using assms(2) by (simp add: unat_gt_0)
    with pos have "(word_of_nat (min lim (unat B)) :: 32 word) \<noteq> 0"
      by (intro word_of_nat_nonzero [of _ B]) simp_all
    with one bd have "lru_bounded c"
      by (auto simp: lru_cache_ctor_def Let_def lru_bounded_def split: if_splits)
    with c show ?thesis by simp
  next
    assume "initCap \<noteq> 0 \<and> lru_cache_ctor_initCap lim initCap = Inr c"
    with bd have "lru_bounded c"
      by (auto simp: lru_cache_ctor_initCap_def Let_def lru_bounded_def split: if_splits)
    with c show ?thesis by simp
  qed
qed

lemma reached_if:
  assumes "constructed B lim initCap c0" and "B \<noteq> 0" and "run_calls B xs c0 = Inr c"
  shows "\<exists>qs. lru_inv c qs \<and> limit c = lim \<and> 0 < lim \<and> map entry_of qs = spec_calls lim xs []"
  using run_calls_refines [OF assms(2), of c0 "[]" xs] constructed_inv [OF assms(1)] assms(3)
  by auto

lemma reached:
  assumes "constructed_nonzero B lim initCap c0" and "B \<noteq> 0"
  shows "\<exists>c qs. run_calls B xs c0 = Inr c \<and> lru_inv c qs \<and> lru_bounded c \<and> limit c = lim \<and> 0 < lim \<and>
    map entry_of qs = spec_calls lim xs []"
  using run_calls_refines [OF assms(2), of c0 "[]" xs] constructed_nonzero_bounded [OF assms]
    constructed_inv [of B lim initCap c0]
  by auto

lemma spec_calls_append:
  "spec_calls lim (xs @ ys) es = spec_calls lim ys (spec_calls lim xs es)"
  by (induction xs arbitrary: es) simp_all

lemma map_of_absent: "k \<notin> fst ` set es \<Longrightarrow> map_of es k = None"
  by (simp add: map_of_eq_None_iff)

lemma spec_inserts_fill:
  "distinct (map fst kvs) \<Longrightarrow> fst ` set kvs \<inter> fst ` set es = {} \<Longrightarrow>
   length es + length kvs \<le> lim \<Longrightarrow>
   spec_calls lim (insert_calls kvs :: ('k, 'v, 's) cache_call list) es =
     es @ map (\<lambda>t. (fst t, fst (snd t))) kvs"
proof (induction kvs arbitrary: es)
  case Nil
  then show ?case by (simp add: insert_calls_def)
next
  case (Cons t kvs)
  let ?es = "es @ [(fst t, fst (snd t))]"
  have "fst t \<notin> fst ` set es"
    using Cons.prems(2) by auto
  then have step: "spec_insert lim (fst t) (fst (snd t)) (snd (snd t)) es = ?es"
    using Cons.prems(3) by (simp add: spec_insert_def map_of_absent)
  have "fst ` set kvs \<inter> fst ` set ?es = {}"
    using Cons.prems(1,2) by auto
  then have "spec_calls lim (insert_calls kvs :: ('k, 'v, 's) cache_call list) ?es =
      ?es @ map (\<lambda>t. (fst t, fst (snd t))) kvs"
    using Cons.IH [of ?es] Cons.prems(1,3) by simp
  then show ?case
    using step by (simp add: insert_calls_def)
qed

lemma spec_inserts_overflow:
  assumes "distinct (map fst kvs)" and "length kvs = Suc lim" and "0 < lim"
  shows "spec_calls lim (insert_calls kvs :: ('k, 'v, 's) cache_call list) [] =
    map (\<lambda>t. (fst t, fst (snd t))) (tl kvs)"
proof -
  let ?kv = "\<lambda>t. (fst t, fst (snd t))"
  from assms(2) have ne: "kvs \<noteq> []"
    by auto
  then have split: "kvs = butlast kvs @ [last kvs]"
    by simp
  have lb: "length (butlast kvs) = lim"
    using assms(2) by simp
  have db: "distinct (map fst (butlast kvs))"
    using assms(1) by (metis distinct_butlast map_butlast)
  have fill: "spec_calls lim (insert_calls (butlast kvs) :: ('k, 'v, 's) cache_call list) [] =
      map ?kv (butlast kvs)"
    using spec_inserts_fill [OF db, of "[]" lim] lb by simp
  have "distinct (map fst (butlast kvs @ [last kvs]))"
    using assms(1) split by simp
  then have "fst (last kvs) \<notin> fst ` set (butlast kvs)"
    by simp
  then have absent: "map_of (map ?kv (butlast kvs)) (fst (last kvs)) = None"
    by (simp add: map_of_eq_None_iff image_image)
  have bne: "butlast kvs \<noteq> []"
  proof
    assume "butlast kvs = []"
    then have "length (butlast kvs) = 0" by simp
    with lb assms(3) show False by simp
  qed
  have "insert_calls kvs = (insert_calls (butlast kvs) @ insert_calls [last kvs] :: ('k, 'v, 's) cache_call list)"
    using split by (metis insert_calls_def map_append)
  then have "spec_calls lim (insert_calls kvs :: ('k, 'v, 's) cache_call list) [] =
      spec_calls lim (insert_calls [last kvs] :: ('k, 'v, 's) cache_call list)
        (spec_calls lim (insert_calls (butlast kvs) :: ('k, 'v, 's) cache_call list) [])"
    by (simp only: spec_calls_append)
  also have "\<dots> = tl (map ?kv (butlast kvs)) @ [?kv (last kvs)]"
    using fill absent lb by (simp add: insert_calls_def spec_insert_def)
  also have "\<dots> = map ?kv (tl (butlast kvs) @ [last kvs])"
    by (simp add: map_tl)
  also have "tl (butlast kvs) @ [last kvs] = tl kvs"
    using bne ne by (metis split tl_append2)
  finally show ?thesis .
qed

lemma length_filter_key:
  assumes "distinct (map fst es)" and "k \<in> fst ` set es"
  shows "Suc (length (filter (\<lambda>e. fst e \<noteq> k) es)) = length es"
proof -
  from assms(2) obtain e where e: "e \<in> set es" "fst e = k"
    by auto
  have "filter (\<lambda>y. fst y = fst e) es = [e]"
    by (rule filter_same_key [OF assms(1) e(1)])
  then have "length (filter (\<lambda>y. fst y = k) es) = 1"
    using e(2) by simp
  then show ?thesis
    using sum_length_filter_compl [of "\<lambda>y. fst y = k" es] by simp
qed

lemma spec_touch_props:
  assumes "distinct (map fst es)" and "k \<in> fst ` set es"
  shows "distinct (map fst (filter (\<lambda>e. fst e \<noteq> k) es @ [(k, w)]))"
    and "length (filter (\<lambda>e. fst e \<noteq> k) es @ [(k, w)]) = length es"
    and "fst ` set (filter (\<lambda>e. fst e \<noteq> k) es @ [(k, w)]) = fst ` set es"
proof -
  show "distinct (map fst (filter (\<lambda>e. fst e \<noteq> k) es @ [(k, w)]))"
    using assms(1) by (auto simp: distinct_map_filter)
  show "length (filter (\<lambda>e. fst e \<noteq> k) es @ [(k, w)]) = length es"
    using length_filter_key [OF assms] by simp
  show "fst ` set (filter (\<lambda>e. fst e \<noteq> k) es @ [(k, w)]) = fst ` set es"
    using assms(2) by auto
qed

lemma spec_insert_props:
  assumes "distinct (map fst es)" and "length es \<le> lim" and "0 < lim"
  shows "distinct (map fst (spec_insert lim k v update es))"
    and "length es \<le> length (spec_insert lim k v update es)"
    and "length (spec_insert lim k v update es) \<le> lim"
    and "fst ` set (spec_insert lim k v update es) \<subseteq> insert k (fst ` set es)"
    and "length (spec_insert lim k v update es) < lim \<longrightarrow>
         fst ` set (spec_insert lim k v update es) = insert k (fst ` set es)"
proof -
  let ?es' = "spec_insert lim k v update es"
  have "distinct (map fst ?es') \<and> length es \<le> length ?es' \<and> length ?es' \<le> lim \<and>
      fst ` set ?es' \<subseteq> insert k (fst ` set es) \<and>
      (length ?es' < lim \<longrightarrow> fst ` set ?es' = insert k (fst ` set es))"
  proof (cases "map_of es k")
    case (Some old)
    then have in_keys: "k \<in> fst ` set es"
      by (metis map_of_eq_None_iff option.distinct(1))
    have eq: "?es' = filter (\<lambda>e. fst e \<noteq> k) es @ [(k, if update then v else old)]"
      using Some by (simp add: spec_insert_def)
    show ?thesis
      unfolding eq using spec_touch_props [OF assms(1) in_keys, of "if update then v else old"] assms(2) in_keys
      by (simp add: insert_absorb)
  next
    case None
    then have absent: "k \<notin> fst ` set es"
      by (simp add: map_of_eq_None_iff)
    show ?thesis
    proof (cases "length es < lim")
      case True
      then have eq: "?es' = es @ [(k, v)]"
        using None by (simp add: spec_insert_def)
      show ?thesis
        unfolding eq using assms(1) absent True by auto
    next
      case False
      then have eq: "?es' = tl es @ [(k, v)]"
        using None by (simp add: spec_insert_def)
      from False assms(2,3) have len: "length es = lim" and ne: "es \<noteq> []"
        by auto
      have "distinct (map fst (tl es))"
        using assms(1) by (simp add: distinct_tl map_tl)
      moreover have "fst ` set (tl es) \<subseteq> fst ` set es"
        using ne by (metis image_mono set_subset_Cons list.collapse)
      moreover have "length (tl es @ [(k, v)]) = lim"
        using len ne by (cases es) auto
      ultimately show ?thesis
        unfolding eq using absent len by auto
    qed
  qed
  then show "distinct (map fst ?es')" "length es \<le> length ?es'" "length ?es' \<le> lim"
    "fst ` set ?es' \<subseteq> insert k (fst ` set es)"
    "length ?es' < lim \<longrightarrow> fst ` set ?es' = insert k (fst ` set es)"
    by blast+
qed

lemma spec_get_props:
  assumes "distinct (map fst es)"
  shows "distinct (map fst (spec_get k es))"
    and "length (spec_get k es) = length es"
    and "fst ` set (spec_get k es) = fst ` set es"
proof -
  have "distinct (map fst (spec_get k es)) \<and> length (spec_get k es) = length es \<and>
      fst ` set (spec_get k es) = fst ` set es"
  proof (cases "map_of es k")
    case (Some old)
    then have in_keys: "k \<in> fst ` set es"
      by (metis map_of_eq_None_iff option.distinct(1))
    have eq: "spec_get k es = filter (\<lambda>e. fst e \<noteq> k) es @ [(k, old)]"
      using Some by (simp add: spec_get_def)
    show ?thesis
      unfolding eq using spec_touch_props [OF assms(1) in_keys, of old] by simp
  next
    case None
    then show ?thesis
      using assms by (simp add: spec_get_def)
  qed
  then show "distinct (map fst (spec_get k es))" "length (spec_get k es) = length es"
    "fst ` set (spec_get k es) = fst ` set es"
    by blast+
qed

lemma spec_call_props:
  assumes "distinct (map fst es)" and "length es \<le> lim" and "0 < lim"
  shows "distinct (map fst (spec_call lim x es))"
    and "length es \<le> length (spec_call lim x es)"
    and "length (spec_call lim x es) \<le> lim"
    and "fst ` set (spec_call lim x es) \<subseteq> fst ` set es \<union> inserted_keys [x]"
    and "length (spec_call lim x es) < lim \<longrightarrow>
         fst ` set (spec_call lim x es) = fst ` set es \<union> inserted_keys [x]"
proof -
  note i = spec_insert_props [OF assms]
  note g = spec_get_props [OF assms(1)]
  have "distinct (map fst (spec_call lim x es)) \<and>
    length es \<le> length (spec_call lim x es) \<and>
    length (spec_call lim x es) \<le> lim \<and>
    fst ` set (spec_call lim x es) \<subseteq> fst ` set es \<union> inserted_keys [x] \<and>
    (length (spec_call lim x es) < lim \<longrightarrow>
         fst ` set (spec_call lim x es) = fst ` set es \<union> inserted_keys [x])"
  proof (cases x)
    case (Insert k v update)
    then show ?thesis
      using i [of k v update] by simp
  next
    case (GetOrInsert k v)
    then show ?thesis
      using i [of k v False] by simp
  next
    case (Get k)
    then show ?thesis
      using g [of k] assms(2) by simp
  next
    case (Peek k)
    then show ?thesis
      using assms by simp
  next
    case (ForEach fn s)
    then have m: "map fst (spec_call lim x es) = map fst es"
      by (simp add: spec_forEach_keys)
    then have "length (spec_call lim x es) = length es" "fst ` set (spec_call lim x es) = fst ` set es"
      by (metis length_map, metis set_map)
    with m ForEach assms show ?thesis
      by simp
  qed
  then show "distinct (map fst (spec_call lim x es))"
    "length es \<le> length (spec_call lim x es)"
    "length (spec_call lim x es) \<le> lim"
    "fst ` set (spec_call lim x es) \<subseteq> fst ` set es \<union> inserted_keys [x]"
    "length (spec_call lim x es) < lim \<longrightarrow>
         fst ` set (spec_call lim x es) = fst ` set es \<union> inserted_keys [x]"
    by blast+
qed

lemma inserted_keys_Cons: "inserted_keys (x # xs) = inserted_keys [x] \<union> inserted_keys xs"
  by (cases x) simp_all

lemma finite_inserted_keys: "finite (inserted_keys xs)"
  by (induction xs rule: inserted_keys.induct) simp_all

lemma spec_calls_size:
  assumes "0 < lim"
  shows "distinct (map fst es) \<Longrightarrow> length es \<le> lim \<Longrightarrow> fst ` set es \<subseteq> S \<Longrightarrow> finite S \<Longrightarrow>
    (length es < lim \<longrightarrow> fst ` set es = S) \<Longrightarrow>
    length (spec_calls lim xs es) = min lim (card (S \<union> inserted_keys xs))"
proof (induction xs arbitrary: es S)
  case Nil
  have ck: "card (fst ` set es) = length es"
    using Nil.prems(1) by (metis distinct_card length_map set_map)
  show ?case
  proof (cases "length es < lim")
    case True
    with Nil.prems(5) ck show ?thesis by simp
  next
    case False
    with Nil.prems(2) have "length es = lim" by simp
    moreover have "card (fst ` set es) \<le> card S"
      by (rule card_mono [OF Nil.prems(4,3)])
    ultimately show ?thesis
      using ck by simp
  qed
next
  case (Cons x xs)
  let ?es = "spec_call lim x es"
  let ?S = "S \<union> inserted_keys [x]"
  note p = spec_call_props [OF Cons.prems(1,2) assms, of x]
  have sub: "fst ` set ?es \<subseteq> ?S"
    using p(4) Cons.prems(3) by auto
  have fin: "finite ?S"
    using Cons.prems(4) finite_inserted_keys [of "[x]"] by simp
  have full: "length ?es < lim \<longrightarrow> fst ` set ?es = ?S"
  proof
    assume lt: "length ?es < lim"
    with p(2) have "length es < lim" by simp
    with Cons.prems(5) have "fst ` set es = S" by simp
    with p(5) lt show "fst ` set ?es = ?S" by simp
  qed
  have "length (spec_calls lim xs ?es) = min lim (card (?S \<union> inserted_keys xs))"
    by (rule Cons.IH [OF p(1) p(3) sub fin full])
  moreover have "?S \<union> inserted_keys xs = S \<union> inserted_keys (x # xs)"
    using inserted_keys_Cons [of x xs] by auto
  ultimately show ?case
    by simp
qed

lemma inv_sizes:
  assumes "lru_inv c qs"
  shows "length (dict c) = length qs" and "length (cache c) = length qs"
    and "card {k. present c k} = length qs" and "length (entries c) = length qs"
proof -
  from assms have m: "mset (dict c) = mset (map MapNode_of qs)" and l: "cache c = map ListNode_of qs"
    and dk: "distinct (map link_key qs)"
    by (simp_all add: lru_inv_def)
  show "length (dict c) = length qs"
    using mset_eq_length [OF m] by simp
  show "length (cache c) = length qs"
    using l by simp
  have "{k. present c k} = set (map link_key qs)"
    using inv_present [OF assms] by auto
  then show "card {k. present c k} = length qs"
    using distinct_card [OF dk] by simp
  show "length (entries c) = length qs"
    using inv_entries [OF assms] by simp
qed

lemma inv_distinct_entries:
  assumes "lru_inv c qs"
  shows "distinct (map fst (entries c))"
proof -
  have "map fst (entries c) = map link_key qs"
    using inv_entries [OF assms] by (simp add: entry_of_def)
  then show ?thesis
    using assms by (simp add: lru_inv_def)
qed

lemmas cache_eval =
  run_calls.simps run_call.simps insert_calls_def insert_lru_def getOrInsert_def get_def peek_def
  forEach_def forEach_loop.simps entries_def present_def dict_find_def key_at_def list_node_def
  value_at_def splice_end_def assign_first_def assign_second_def list_insert_end_def
  try_emplace_def dict_extract_def dict_insert_node_def lru_cache_ctor_def lru_cache_ctor_initCap_def
  allocate_def allocate_from_block_def pool_allocator_ctor_def Let_def map_filter_simps
  record_entry_def overwrite_def

lemma run_calls_projr:
  assumes "constructed_nonzero B lim initCap c0" and "B \<noteq> 0"
  shows "run_calls B xs c0 = Inr (projr (run_calls B xs c0))"
  using reached [OF assms, of xs] by auto

lemma scenario_constructed_nonzero: "constructed_nonzero 1024 3 3 scenario_start"
  by (simp add: constructed_nonzero_def scenario_start_def lru_cache_ctor_initCap_def)

lemma scenario_constructed: "constructed 1024 3 3 scenario_start"
  by (simp add: constructed_def scenario_start_def lru_cache_ctor_initCap_def)

lemma scenario_run: "run_calls 1024 scenario_calls scenario_start = Inr scenario_cache"
  unfolding scenario_cache_def by (rule run_calls_projr [OF scenario_constructed_nonzero]) simp

lemma scenario_entries: "entries scenario_cache = [(4, 43), (7, 333), (6, 47)]"
  by (simp add: scenario_cache_def scenario_calls_def scenario_start_def cache_eval)

lemma scenario_spec: "spec_calls 3 scenario_calls [] = [(4, 43), (7, 333), (6, 47)]"
  by (simp add: scenario_calls_def spec_insert_def spec_get_def)


section \<open>The cache with a positive initial capacity\<close>

text \<open>
  A cache constructed by \<open>lru_cache(limit)\<close>, or by \<open>lru_cache(limit, initCap)\<close> with
  \<open>initCap \<ge> 1\<close>, never fails. After \<open>lim + 1\<close> insert calls with pairwise distinct
  keys the key inserted first is absent and the \<open>lim\<close> later keys are present, in the
  order of the calls.
\<close>

lemma evicts_first_inserted_nonzero:
  assumes "constructed_nonzero AllocBlockSize lim initCap c0" and "AllocBlockSize \<noteq> 0"
    and "distinct (map fst kvs)" and "length kvs = Suc lim"
  shows "\<exists>c. run_calls AllocBlockSize (insert_calls kvs :: ('k, 'v, 's) cache_call list) c0 = Inr c \<and>
    entries c = map (\<lambda>t. (fst t, fst (snd t))) (tl kvs) \<and>
    \<not> present c (fst (hd kvs)) \<and>
    get (fst (hd kvs)) c = Inr (None, c) \<and>
    peek (fst (hd kvs)) c = Inr (None, c) \<and>
    (\<forall>t \<in> set (tl kvs). present c (fst t) \<and>
       (\<exists>p. peek (fst t) c = Inr (Some p, c) \<and> value_at (cache c) p = Some (fst (snd t)) \<and>
            (\<exists>c'. get (fst t) c = Inr (Some p, c'))))"
proof -
  let ?kv = "\<lambda>t. (fst t, fst (snd t))"
  from reached [OF assms(1,2), of "insert_calls kvs :: ('k, 'v, 's) cache_call list"]
  obtain c qs where r: "run_calls AllocBlockSize (insert_calls kvs :: ('k, 'v, 's) cache_call list) c0 = Inr c"
      "lru_inv c qs" "0 < lim"
      "map entry_of qs = spec_calls lim (insert_calls kvs :: ('k, 'v, 's) cache_call list) []"
    by blast
  have es: "map entry_of qs = map ?kv (tl kvs)"
    using r(4) spec_inserts_overflow [OF assms(3,4) r(3)] by simp
  have keys: "link_key ` set qs = fst ` set (tl kvs)"
  proof -
    have "link_key ` set qs = fst ` set (map entry_of qs)"
      by (rule inv_keys [OF r(2), symmetric])
    also have "\<dots> = fst ` set (tl kvs)"
      unfolding es by (simp add: image_image)
    finally show ?thesis .
  qed
  from assms(4) obtain t0 rest where kvs: "kvs = t0 # rest"
    by (cases kvs) auto
  have first: "fst (hd kvs) \<notin> link_key ` set qs"
    using assms(3) keys unfolding kvs by simp
  have di: "distinct (map link_it qs)" and dk: "distinct (map link_key qs)"
    and l: "cache c = map ListNode_of qs"
    using r(2) by (simp_all add: lru_inv_def)
  have later: "present c (fst t) \<and>
       (\<exists>p. peek (fst t) c = Inr (Some p, c) \<and> value_at (cache c) p = Some (fst (snd t)) \<and>
            (\<exists>c'. get (fst t) c = Inr (Some p, c')))" if t: "t \<in> set (tl kvs)" for t
  proof -
    from t have "?kv t \<in> set (map entry_of qs)"
      unfolding es by simp
    then obtain q where q: "q \<in> set qs" "link_key q = fst t" "link_value q = fst (snd t)"
      by (auto simp: entry_of_def)
    have "present c (fst t)"
      using inv_present [OF r(2), of "fst t"] q by force
    moreover have "peek (fst t) c = Inr (Some (link_it q), c)"
      using peek_hit [OF r(2) q(1)] q(2) by simp
    moreover have "value_at (cache c) (link_it q) = Some (fst (snd t))"
      using value_at_links [OF di q(1)] q(3) l by simp
    moreover have "\<exists>c'. get (fst t) c = Inr (Some (link_it q), c')"
      using get_hit [OF r(2) q(1)] q(2) by simp
    ultimately show ?thesis
      by blast
  qed
  have "entries c = map ?kv (tl kvs)"
    using inv_entries [OF r(2)] es by simp
  moreover have "\<not> present c (fst (hd kvs))"
    using inv_present [OF r(2)] first by simp
  moreover have "get (fst (hd kvs)) c = Inr (None, c)"
    by (rule get_miss [OF r(2) first])
  moreover have "peek (fst (hd kvs)) c = Inr (None, c)"
    by (rule peek_miss [OF r(2) first])
  ultimately show ?thesis
    using r(1) later by blast
qed

text \<open>
  After every sequence of public operations on such a cache, the number of present keys,
  the size of \<open>dict\<close> and the length of the recency list are equal and at most
  \<open>lim\<close>; the size is the smaller of \<open>lim\<close> and the number of distinct keys inserted so
  far; and no further operation fails or shrinks the cache.
\<close>

lemma capacity_invariant_nonzero:
  assumes "constructed_nonzero AllocBlockSize lim initCap c0" and "AllocBlockSize \<noteq> 0"
  shows "\<exists>c. run_calls AllocBlockSize (xs :: ('k, 'v, 's) cache_call list) c0 = Inr c \<and>
    card {k. present c k} = length (cache c) \<and>
    length (dict c) = length (cache c) \<and>
    length (cache c) \<le> lim \<and>
    length (cache c) = min lim (card (inserted_keys xs)) \<and>
    (\<forall>x :: ('k, 'v, 's) cache_call.
       \<exists>c'. run_call AllocBlockSize x c = Inr c' \<and> length (cache c) \<le> length (cache c'))"
proof -
  from reached [OF assms, of xs]
  obtain c qs where r: "run_calls AllocBlockSize xs c0 = Inr c" "lru_inv c qs" "limit c = lim" "0 < lim"
      "map entry_of qs = spec_calls lim xs []" and bd: "lru_bounded c"
    by blast
  note sz = inv_sizes [OF r(2)]
  have le: "length qs \<le> lim"
    using r(2,3) by (simp add: lru_inv_def)
  have "length (spec_calls lim xs ([] :: ('k \<times> 'v) list)) = min lim (card ({} \<union> inserted_keys xs))"
    by (rule spec_calls_size [OF r(4)]) simp_all
  then have mn: "length qs = min lim (card (inserted_keys xs))"
    using r(5) by (metis length_map sup_bot.left_neutral)
  have grow: "\<exists>c'. run_call AllocBlockSize x c = Inr c' \<and> length (cache c) \<le> length (cache c')"
    for x :: "('k, 'v, 's) cache_call"
  proof -
    from run_call_refines [OF r(2) assms(2), of x] bd
    obtain c' qs' where st: "run_call AllocBlockSize x c = Inr c'" "lru_inv c' qs'"
        "map entry_of qs' = spec_call (limit c) x (map entry_of qs)"
      by blast
    have "distinct (map fst (map entry_of qs))"
      using inv_distinct_entries [OF r(2)] inv_entries [OF r(2)] by simp
    moreover have "length (map entry_of qs) \<le> lim"
      using le by simp
    ultimately have "length (map entry_of qs) \<le> length (spec_call lim x (map entry_of qs))"
      using spec_call_props(2) r(4) by blast
    then have "length qs \<le> length qs'"
      using st(3) r(3) by (metis length_map)
    then show ?thesis
      using st(1) sz(2) inv_sizes(2) [OF st(2)] by simp
  qed
  show ?thesis
    using r(1) sz le mn grow by auto
qed

text \<open>
  Both constructors fail their assertion for \<open>limit = 0\<close> and return an empty cache for
  a positive limit. From a cache constructed with a positive initial capacity, every
  sequence of public operations succeeds, and so does every further operation; \<open>get\<close>
  and \<open>peek\<close> of a key that is not present return the absent result and leave the
  cache as it is.
\<close>

lemma construction_and_errors_nonzero:
  "lru_cache_ctor AllocBlockSize 0 = (Inl Assertion_Failed :: error + ('k, 'v) lru_cache) \<and>
   lru_cache_ctor_initCap 0 initCap = (Inl Assertion_Failed :: error + ('k, 'v) lru_cache) \<and>
   (0 < lim \<longrightarrow>
      (\<exists>c :: ('k, 'v) lru_cache. lru_cache_ctor AllocBlockSize lim = Inr c \<and>
         dict c = [] \<and> cache c = [] \<and> limit c = lim \<and> entries c = [] \<and> (\<forall>k. \<not> present c k)) \<and>
      (\<exists>c :: ('k, 'v) lru_cache. lru_cache_ctor_initCap lim initCap = Inr c \<and>
         dict c = [] \<and> cache c = [] \<and> limit c = lim \<and> entries c = [] \<and> (\<forall>k. \<not> present c k))) \<and>
   (constructed_nonzero AllocBlockSize lim initCap (start :: ('k, 'v) lru_cache) \<and> AllocBlockSize \<noteq> 0 \<longrightarrow>
      (\<exists>c. run_calls AllocBlockSize (xs :: ('k, 'v, 's) cache_call list) start = Inr c \<and>
         (\<forall>x :: ('k, 'v, 's) cache_call. \<exists>c'. run_call AllocBlockSize x c = Inr c') \<and>
         (\<forall>k. \<not> present c k \<longrightarrow> get k c = Inr (None, c) \<and> peek k c = Inr (None, c))))"
proof (intro conjI impI)
  show "lru_cache_ctor AllocBlockSize 0 = (Inl Assertion_Failed :: error + ('k, 'v) lru_cache)"
    by (simp add: lru_cache_ctor_def)
  show "lru_cache_ctor_initCap 0 initCap = (Inl Assertion_Failed :: error + ('k, 'v) lru_cache)"
    by (simp add: lru_cache_ctor_initCap_def)
next
  assume "0 < lim"
  then show "\<exists>c :: ('k, 'v) lru_cache. lru_cache_ctor AllocBlockSize lim = Inr c \<and>
         dict c = [] \<and> cache c = [] \<and> limit c = lim \<and> entries c = [] \<and> (\<forall>k. \<not> present c k)"
    by (simp add: lru_cache_ctor_def Let_def entries_def map_filter_simps present_def dict_find_def)
next
  assume "0 < lim"
  then show "\<exists>c :: ('k, 'v) lru_cache. lru_cache_ctor_initCap lim initCap = Inr c \<and>
         dict c = [] \<and> cache c = [] \<and> limit c = lim \<and> entries c = [] \<and> (\<forall>k. \<not> present c k)"
    by (simp add: lru_cache_ctor_initCap_def Let_def entries_def map_filter_simps present_def dict_find_def)
next
  assume h: "constructed_nonzero AllocBlockSize lim initCap start \<and> AllocBlockSize \<noteq> 0"
  from reached [of AllocBlockSize lim initCap start xs] h
  obtain c qs where r: "run_calls AllocBlockSize xs start = Inr c" "lru_inv c qs" and bd: "lru_bounded c"
    by blast
  have "\<exists>c'. run_call AllocBlockSize x c = Inr c'" for x :: "('k, 'v, 's) cache_call"
    using run_call_refines [OF r(2), of AllocBlockSize x] h bd by blast
  moreover have "get k c = Inr (None, c) \<and> peek k c = Inr (None, c)" if "\<not> present c k" for k
    using that inv_present [OF r(2), of k] get_miss [OF r(2), of k] peek_miss [OF r(2), of k] by simp
  ultimately show "\<exists>c. run_calls AllocBlockSize xs start = Inr c \<and>
         (\<forall>x :: ('k, 'v, 's) cache_call. \<exists>c'. run_call AllocBlockSize x c = Inr c') \<and>
         (\<forall>k. \<not> present c k \<longrightarrow> get k c = Inr (None, c) \<and> peek k c = Inr (None, c))"
    using r(1) by blast
qed

section \<open>The claims about the cache\<close>

text \<open>
  Claim C1 fails for a cache constructed by \<open>lru_cache(limit, 0)\<close>. The constructor
  succeeds, both allocators start with \<open>reserved = 0\<close>, and the first \<open>insert\<close> puts
  its list node into slot 0 of a block of zero slots: the source writes past the block.
  With capacity 1 and two inserts of distinct keys, no insert is completed, so the
  second key is not present afterwards.
\<close>

theorem zero_initCap_breaks_eviction:
  "\<not> isl (lru_cache_ctor_initCap 1 0 :: error + (nat, int) lru_cache) \<and>
   distinct (map fst [(1 :: nat, 10 :: int, False), (2, 20, False)]) \<and>
   length [(1 :: nat, 10 :: int, False), (2, 20, False)] = Suc 1 \<and>
   run_calls 1024 (insert_calls [(1, 10, False), (2, 20, False)] :: (nat, int, unit) cache_call list)
     (projr (lru_cache_ctor_initCap 1 0)) = Inl Out_Of_Block"
  by (simp add: cache_eval)

text \<open>
  Claim C2 fails for a cache constructed by \<open>lru_cache(limit, 0)\<close>: the first operation
  that inserts a key puts a node outside its block of zero slots, so after it there is
  no cache state of which the sizes could be compared.
\<close>

theorem zero_initCap_breaks_capacity_invariant:
  "\<not> isl (lru_cache_ctor_initCap 3 0 :: error + (nat, int) lru_cache) \<and>
   getOrInsert 1024 (1 :: nat) (10 :: int) (projr (lru_cache_ctor_initCap 3 0)) = Inl Out_Of_Block \<and>
   run_calls 1024 [Peek 1, GetOrInsert 1 10, Get 1 :: (nat, int, unit) cache_call]
     (projr (lru_cache_ctor_initCap 3 0)) = Inl Out_Of_Block"
  by (simp add: cache_eval)

text \<open>
  Claim C3. In a cache state reached from a constructor in which the key \<open>k\<close> is present
  with the value \<open>v1\<close>, \<open>insert(k, v2, update)\<close> returns \<open>inserted = false\<close> and a
  pointer to the stored value of \<open>k\<close>, which is \<open>v1\<close> when \<open>update\<close> is false and
  \<open>v2\<close> when it is true; the entry of \<open>k\<close> becomes the last (most recently used) entry,
  every other entry keeps its value and its relative position, and the same keys are
  present as before.
\<close>

theorem insert_present_key:
  assumes "constructed AllocBlockSize lim initCap c0" and "AllocBlockSize \<noteq> 0"
    and "run_calls AllocBlockSize (xs :: ('k, 'v, 's) cache_call list) c0 = Inr c"
    and "(k, v1) \<in> set (entries c)"
  shows "\<exists>p c'. insert_lru AllocBlockSize k v2 update c = Inr ((p, False), c') \<and>
    value_at (cache c') p = Some (if update then v2 else v1) \<and>
    peek k c' = Inr (Some p, c') \<and>
    entries c' = filter (\<lambda>e. fst e \<noteq> k) (entries c) @ [(k, if update then v2 else v1)] \<and>
    length (entries c') = length (entries c) \<and>
    (\<forall>k'. present c' k' \<longleftrightarrow> present c k')"
proof -
  from reached_if [OF assms(1,2,3)]
  obtain qs where inv: "lru_inv c qs"
    by auto
  from assms(4) obtain q where q: "q \<in> set qs" "link_key q = k" "link_value q = v1"
    using inv_entries [OF inv] by (auto simp: entry_of_def)
  from inv have di: "distinct (map link_it qs)" and dk: "distinct (map link_key qs)"
    by (simp_all add: lru_inv_def)
  let ?w = "if update then v2 else v1"
  let ?qs' = "touch q ?w qs"
  let ?q' = "Link (link_it q) (link_node q) (link_key q) ?w"
  let ?c' = "c\<lparr>cache := map ListNode_of ?qs'\<rparr>"
  have ins: "insert_lru AllocBlockSize k v2 update c = Inr ((link_it q, False), ?c')"
    using insert_hit [OF inv q(1), of AllocBlockSize v2 update] q(2,3) by simp
  have inv': "lru_inv ?c' ?qs'"
    by (rule inv_touch [OF inv q(1)])
  have mem: "?q' \<in> set ?qs'"
    by (simp add: touch_def)
  have di': "distinct (map link_it ?qs')"
    using inv' by (simp add: lru_inv_def)
  have val: "value_at (cache ?c') (link_it q) = Some ?w"
    using value_at_links [OF di' mem] by simp
  have pk: "peek k ?c' = Inr (Some (link_it q), ?c')"
    using peek_hit [OF inv' mem] q(2) by simp
  have en: "entries ?c' = filter (\<lambda>e. fst e \<noteq> k) (entries c) @ [(k, ?w)]"
    using inv_entries [OF inv'] inv_entries [OF inv] entries_touch [OF di dk q(1), where v = ?w] q(2)
    by simp
  have "mset (map link_key ?qs') = mset (map link_key qs)"
    by (rule mset_map_touch [OF di q(1)]) simp
  then have keys: "link_key ` set ?qs' = link_key ` set qs"
    by (metis mset_eq_setD set_map)
  have pr: "present ?c' k' \<longleftrightarrow> present c k'" for k'
    using inv_present [OF inv', of k'] inv_present [OF inv, of k'] keys by simp
  have ln: "length (entries ?c') = length (entries c)"
    using inv_sizes(4) [OF inv'] inv_sizes(4) [OF inv] mset_eq_length [OF \<open>mset (map link_key ?qs') = mset (map link_key qs)\<close>]
    by simp
  show ?thesis
    using ins val pk en ln pr by blast
qed

theorem insert_present_key_witness:
  "constructed 1024 3 3 scenario_start \<and> (1024 :: 32 word) \<noteq> 0 \<and>
   run_calls 1024 scenario_calls scenario_start = Inr scenario_cache \<and>
   (7, 333) \<in> set (entries scenario_cache) \<and>
   entries (snd (projr (insert_lru 1024 7 60 False scenario_cache))) = [(4, 43), (6, 47), (7, 333)] \<and>
   entries (snd (projr (insert_lru 1024 7 60 True scenario_cache))) = [(4, 43), (6, 47), (7, 60)] \<and>
   snd (fst (projr (insert_lru 1024 7 60 True scenario_cache))) = False"
proof -
  have h2: "(1024 :: 32 word) \<noteq> 0"
    by simp
  have h4: "(7, 333) \<in> set (entries scenario_cache)"
    by (simp add: scenario_entries)
  note inst = insert_present_key [OF scenario_constructed h2 scenario_run h4, of 60]
  from inst [of False] obtain p c' where
    "insert_lru 1024 7 60 False scenario_cache = Inr ((p, False), c')"
    "entries c' = filter (\<lambda>e. fst e \<noteq> 7) (entries scenario_cache) @ [(7, if False then 60 else 333)]"
    by blast
  then have r1: "entries (snd (projr (insert_lru 1024 7 60 False scenario_cache))) = [(4, 43), (6, 47), (7, 333)]"
    by (simp add: scenario_entries)
  from inst [of True] obtain p c' where
    "insert_lru 1024 7 60 True scenario_cache = Inr ((p, False), c')"
    "entries c' = filter (\<lambda>e. fst e \<noteq> 7) (entries scenario_cache) @ [(7, if True then 60 else 333)]"
    by blast
  then have r2: "entries (snd (projr (insert_lru 1024 7 60 True scenario_cache))) = [(4, 43), (6, 47), (7, 60)]"
    "snd (fst (projr (insert_lru 1024 7 60 True scenario_cache))) = False"
    by (simp_all add: scenario_entries)
  show ?thesis
    using scenario_constructed h2 scenario_run h4 r1 r2 by blast
qed

text \<open>
  Claim C4. In every cache state reached from a constructor, \<open>peek(k)\<close> succeeds and
  returns the cache as it was; the result is absent exactly when \<open>k\<close> is not present,
  and otherwise points to the stored value of \<open>k\<close>. Hence any calls that follow, and any
  insert in particular, behave as they would have without the \<open>peek\<close>.
\<close>

theorem peek_leaves_cache_unchanged:
  assumes "constructed AllocBlockSize lim initCap c0" and "AllocBlockSize \<noteq> 0"
    and "run_calls AllocBlockSize (xs :: ('k, 'v, 's) cache_call list) c0 = Inr c"
  shows "\<exists>r. peek k c = Inr (r, c) \<and>
    (r = None \<longleftrightarrow> \<not> present c k) \<and>
    (case r of
       None \<Rightarrow> map_of (entries c) k = None
     | Some p \<Rightarrow> (\<exists>v. value_at (cache c) p = Some v \<and> map_of (entries c) k = Some v)) \<and>
    run_calls AllocBlockSize (Peek k # ys) c = run_calls AllocBlockSize (ys :: ('k, 'v, 's) cache_call list) c \<and>
    insert_lru AllocBlockSize k' v' update (snd (projr (peek k c))) = insert_lru AllocBlockSize k' v' update c"
proof -
  from reached_if [OF assms(1,2,3)]
  obtain qs where inv: "lru_inv c qs"
    by auto
  from inv have di: "distinct (map link_it qs)" and dk: "distinct (map link_key qs)"
    and l: "cache c = map ListNode_of qs"
    by (simp_all add: lru_inv_def)
  show ?thesis
  proof (cases "k \<in> link_key ` set qs")
    case True
    then obtain q where q: "q \<in> set qs" "k = link_key q"
      by auto
    have pk: "peek k c = Inr (Some (link_it q), c)"
      using peek_hit [OF inv q(1)] q(2) by simp
    have "value_at (cache c) (link_it q) = Some (link_value q)"
      using value_at_links [OF di q(1)] l by simp
    moreover have "map_of (entries c) k = Some (link_value q)"
      using map_of_entries(1) [OF dk q(1)] inv_entries [OF inv] q(2) by simp
    moreover have "present c k"
      using inv_present [OF inv] True by simp
    ultimately show ?thesis
      using pk by simp
  next
    case False
    have pk: "peek k c = Inr (None, c)"
      by (rule peek_miss [OF inv False])
    have "map_of (entries c) k = None"
      using map_of_entries(2) [OF dk False] inv_entries [OF inv] by simp
    moreover have "\<not> present c k"
      using inv_present [OF inv] False by simp
    ultimately show ?thesis
      using pk by simp
  qed
qed

theorem peek_leaves_cache_unchanged_witness:
  "constructed 1024 3 3 scenario_start \<and> (1024 :: 32 word) \<noteq> 0 \<and>
   run_calls 1024 scenario_calls scenario_start = Inr scenario_cache \<and>
   \<not> isl (peek 4 scenario_cache) \<and>
   snd (projr (peek 4 scenario_cache)) = scenario_cache \<and>
   run_calls 1024 [Peek 4, Insert 9 90 False :: (nat, int, unit) cache_call] scenario_cache =
     run_calls 1024 [Insert 9 90 False :: (nat, int, unit) cache_call] scenario_cache"
proof -
  have h2: "(1024 :: 32 word) \<noteq> 0"
    by simp
  from peek_leaves_cache_unchanged [OF scenario_constructed h2 scenario_run, of 4 "[Insert 9 90 False :: (nat, int, unit) cache_call]" 9 90 False]
  obtain r where r: "peek 4 scenario_cache = Inr (r, scenario_cache)"
    "run_calls 1024 [Peek 4, Insert 9 90 False :: (nat, int, unit) cache_call] scenario_cache =
     run_calls 1024 [Insert 9 90 False :: (nat, int, unit) cache_call] scenario_cache"
    by blast
  have "\<not> isl (peek 4 scenario_cache)" "snd (projr (peek 4 scenario_cache)) = scenario_cache"
    by (simp_all only: r(1) sum.disc sum.sel snd_conv not_False_eq_True)
  then show ?thesis
    using scenario_constructed h2 scenario_run r(2) by (intro conjI)
qed

text \<open>
  Claim C5, as stated, fails for a callback that assigns to the value it is handed:
  \<open>forEach\<close> passes the stored value as an lvalue of the list element, so after
  \<open>forEach\<close> with a callback that assigns 0 every stored value of the scenario cache
  is 0.
\<close>

theorem forEach_overwrite_counterexample:
  "constructed 1024 3 3 scenario_start \<and>
   run_calls 1024 scenario_calls scenario_start = Inr scenario_cache \<and>
   entries scenario_cache = [(4, 43), (7, 333), (6, 47)] \<and>
   entries (snd (projr (forEach (overwrite 0) () scenario_cache))) = [(4, 0), (7, 0), (6, 0)]"
proof -
  have "entries (snd (projr (forEach (overwrite 0) () scenario_cache))) = [(4, 0), (7, 0), (6, 0)]"
    by (simp add: scenario_cache_def scenario_calls_def scenario_start_def cache_eval)
  then show ?thesis
    using scenario_constructed scenario_run scenario_entries by simp
qed

text \<open>
  Claim C5, amended. In every cache state reached from a constructor, \<open>forEach(fn)\<close>
  calls \<open>fn\<close> exactly once for each present entry, in the order of the entries from the
  least to the most recently used, handing it the key and the stored value, the value as
  a reference it may assign to. The set of present keys and the recency order are
  unchanged; each stored value is what \<open>fn\<close> leaves in it, so the whole cache is
  unchanged when \<open>fn\<close> does not assign. The entries are those that the specification's
  reading of the history of calls yields (\<open>spec_calls\<close>); their keys are pairwise
  distinct and are exactly the present keys, and the value handed to \<open>fn\<close> is the one
  \<open>peek\<close> points to.
\<close>

theorem forEach_recency_order:
  assumes "constructed AllocBlockSize lim initCap c0" and "AllocBlockSize \<noteq> 0"
    and "run_calls AllocBlockSize (xs :: ('k, 'v, 's) cache_call list) c0 = Inr c"
  shows "\<exists>c'. forEach fn s c = Inr (snd (spec_forEach fn (entries c) s), c') \<and>
    entries c' = fst (spec_forEach fn (entries c) s) \<and>
    map fst (entries c') = map fst (entries c) \<and>
    dict c' = dict c \<and>
    (\<forall>k. present c' k \<longleftrightarrow> present c k) \<and>
    ((\<forall>k v t. fst (fn k v t) = v) \<longrightarrow> c' = c) \<and>
    entries c = spec_calls lim xs [] \<and>
    distinct (map fst (entries c)) \<and>
    length (entries c) = length (cache c) \<and>
    (\<forall>k. present c k \<longleftrightarrow> k \<in> fst ` set (entries c)) \<and>
    (\<forall>k p. peek k c = Inr (Some p, c) \<longrightarrow>
       value_at (cache c) p \<noteq> None \<and> value_at (cache c) p = map_of (entries c) k)"
proof -
  from reached_if [OF assms]
  obtain qs where r: "lru_inv c qs" "map entry_of qs = spec_calls lim xs []"
    by blast
  from r(1) have di: "distinct (map link_it qs)" and dk: "distinct (map link_key qs)"
    and l: "cache c = map ListNode_of qs"
    by (simp_all add: lru_inv_def)
  note en = inv_entries [OF r(1)]
  let ?qs' = "fst (forEach_links fn qs s)"
  let ?c' = "c\<lparr>cache := map ListNode_of ?qs'\<rparr>"
  have inv': "lru_inv ?c' ?qs'"
    by (rule inv_forEach_links [OF r(1)])
  have fe: "forEach fn s c = Inr (snd (spec_forEach fn (entries c) s), ?c')"
    using forEach_entries [OF r(1), of fn s] forEach_links_entries(2) [of fn qs s] en by simp
  have en': "entries ?c' = fst (spec_forEach fn (entries c) s)"
    using inv_entries [OF inv'] forEach_links_entries(1) [of fn qs s] en by simp
  have ks: "map fst (entries ?c') = map fst (entries c)"
    unfolding en' by (rule spec_forEach_keys)
  have dc: "dict ?c' = dict c"
    by simp
  have pr': "present ?c' k \<longleftrightarrow> present c k" for k
    by (simp add: present_def)
  have ob: "(\<forall>k v t. fst (fn k v t) = v) \<longrightarrow> ?c' = c"
    using forEach_links_observer [of fn qs s] l by auto
  have pr: "present c k \<longleftrightarrow> k \<in> fst ` set (entries c)" for k
    using inv_present [OF r(1), of k] inv_keys [OF r(1)] en by simp
  have pv: "value_at (cache c) p \<noteq> None \<and> value_at (cache c) p = map_of (entries c) k"
    if "peek k c = Inr (Some p, c)" for k p
  proof (cases "k \<in> link_key ` set qs")
    case True
    then obtain q where q: "q \<in> set qs" "k = link_key q"
      by auto
    with that peek_hit [OF r(1) q(1)] have "p = link_it q"
      by simp
    then show ?thesis
      using value_at_links [OF di q(1)] map_of_entries(1) [OF dk q(1)] l en q(2) by simp
  next
    case False
    with that peek_miss [OF r(1) False] show ?thesis
      by simp
  qed
  have e1: "entries c = spec_calls lim xs []"
    using en r(2) by simp
  have ln: "length (entries c) = length (cache c)"
    using inv_sizes(2,4) [OF r(1)] by simp
  show ?thesis
    using fe en' ks dc pr' ob e1 inv_distinct_entries [OF r(1)] ln pr pv
    by (intro exI [of _ ?c']) blast
qed

theorem forEach_recency_order_witness:
  "constructed 1024 3 3 scenario_start \<and> (1024 :: 32 word) \<noteq> 0 \<and>
   run_calls 1024 scenario_calls scenario_start = Inr scenario_cache \<and>
   fst (projr (forEach record_entry [] scenario_cache)) = [(4, 43), (7, 333), (6, 47)] \<and>
   snd (projr (forEach record_entry [] scenario_cache)) = scenario_cache"
proof -
  have h2: "(1024 :: 32 word) \<noteq> 0"
    by simp
  have ob: "\<forall>k v t. fst (record_entry k (v :: int) (t :: (nat \<times> int) list)) = v"
    by (simp add: record_entry_def)
  have "\<exists>c'. forEach record_entry [] scenario_cache =
      Inr (snd (spec_forEach record_entry (entries scenario_cache) []), c') \<and>
    ((\<forall>k v t. fst (record_entry k (v :: int) (t :: (nat \<times> int) list)) = v) \<longrightarrow> c' = scenario_cache)"
    using forEach_recency_order [OF scenario_constructed h2 scenario_run, of record_entry "[]"]
    by (elim exE conjE) (intro exI conjI, assumption+)
  then obtain c' where c': "forEach record_entry [] scenario_cache =
      Inr (snd (spec_forEach record_entry (entries scenario_cache) []), c')"
    "(\<forall>k v t. fst (record_entry k (v :: int) (t :: (nat \<times> int) list)) = v) \<longrightarrow> c' = scenario_cache"
    by (elim exE conjE)
  have "snd (spec_forEach record_entry (entries scenario_cache) []) = [(4, 43), (7, 333), (6, 47)]"
    by (simp add: scenario_entries record_entry_def)
  with c' ob have "fst (projr (forEach record_entry [] scenario_cache)) = [(4, 43), (7, 333), (6, 47)]"
    "snd (projr (forEach record_entry [] scenario_cache)) = scenario_cache"
    by simp_all
  then show ?thesis
    using scenario_constructed h2 scenario_run by simp
qed

text \<open>
  Claim C8 fails for a cache constructed by \<open>lru_cache(limit, 0)\<close>: construction
  succeeds for the positive limit, and the first \<open>insert\<close> fails, because its node lies
  outside the block of zero slots that the allocator creates.
\<close>

theorem zero_initCap_insert_fails:
  "\<not> isl (lru_cache_ctor_initCap 3 0 :: error + (nat, int) lru_cache) \<and>
   insert_lru 1024 (1 :: nat) (10 :: int) False (projr (lru_cache_ctor_initCap 3 0)) = Inl Out_Of_Block \<and>
   \<not> in_block (pool (mpool (snd (projr (allocate 1024 1
        (cache_alloc (projr (lru_cache_ctor_initCap 3 0 :: error + (nat, int) lru_cache))))))))
      (fst (projr (allocate 1024 1
        (cache_alloc (projr (lru_cache_ctor_initCap 3 0 :: error + (nat, int) lru_cache))))))"
  by (simp add: cache_eval)



end
